theory Spec2Isabelle
  imports Main "HOL-Library.Multiset"
begin

section \<open>The document as the toggle engine reads it\<close>

text \<open>
  The engine of \<^verbatim>\<open>src/index.js\<close> keeps no tree: it reads and writes attributes of the
  block holders of the editor (the \<^verbatim>\<open>div.ce-block\<close> elements of the redactor) and calls
  the editor's block API. A holder is modelled by the attributes and classes the engine
  touches:
  \<^item> \<open>blockId\<close>, \<open>blockName\<close>: the editor's \<^verbatim>\<open>block.id\<close> and \<^verbatim>\<open>block.name\<close>;
  \<^item> \<open>foreignKey\<close>, \<open>holderId\<close>, \<open>status\<close>: the holder's attributes of these names
    (\<open>None\<close> is an absent attribute, which \<^verbatim>\<open>getAttribute\<close> reads as \<^verbatim>\<open>null\<close>);
  \<^item> \<open>hidden\<close>: the holder's \<^verbatim>\<open>hidden\<close> property;
  \<^item> \<open>toggleItem\<close>: the class \<^verbatim>\<open>toggle-block__item\<close>;
  \<^item> \<open>onkeydown\<close>: whether the nested-block key handler is bound;
  \<^item> \<open>selectors\<close>: the ids of the \<^verbatim>\<open>.toggle-block__selector\<close> elements inside the
    holder, in document order (\<^verbatim>\<open>createToggle\<close> gives every such element its id).
\<close>

datatype error = TypeError | RangeError

record block =
  blockId :: string
  blockName :: string
  foreignKey :: "string option"
  holderId :: "string option"
  status :: "string option"
  hidden :: bool
  toggleItem :: bool
  onkeydown :: bool
  selectors :: "string list"

datatype call = Move int int | Delete int | SetCaret int | CloseToolbar

text \<open>
  One record holds what an operation can read or write: the block sequence, the log of
  the API calls issued so far, the editor's cursor, and the fields of the
  \<^verbatim>\<open>ToggleBlock\<close> instance (\<^verbatim>\<open>this.wrapper.id\<close>, \<^verbatim>\<open>this.data.status\<close>,
  \<^verbatim>\<open>this.itemsId\<close>, \<^verbatim>\<open>this.readOnly\<close>, \<^verbatim>\<open>this.startBlock\<close>, \<^verbatim>\<open>this.nameDragged\<close>, and
  whether the wrapper's default content carries \<^verbatim>\<open>toggle-block__hidden\<close>).
\<close>

record state =
  blocks :: "block list"
  calls :: "call list"
  currentBlockIndex :: int
  wrapperId :: string
  dataStatus :: string
  itemsId :: "string list"
  readOnly :: bool
  defaultContentHidden :: bool
  startBlock :: int
  nameDragged :: string

subsection \<open>The editor's block API\<close>

text \<open>
  Modelled from the spec: the Block Sequence primitives of the host editor (spec section 6),
  which are not part of this repository. A read outside the sequence returns a
  placeholder empty block. \<^verbatim>\<open>move(toIndex, fromIndex)\<close> takes the block at \<open>fromIndex\<close> out
  and puts it back at \<open>toIndex\<close>; \<^verbatim>\<open>delete(index)\<close> takes the block at \<open>index\<close> out.
  Every call is logged. Section 6 does not say what the host does with a move or a delete
  that names a position outside the sequence, and section 7 leaves the check of the bounds
  to the engine: \<open>moveBlocks\<close> and \<open>deleteBlocks\<close> have to take a value there, they return
  the sequence as it is, and no property below rests on that value: each is stated for
  positions of the sequence, or on the log of the calls.
\<close>

definition validIndex :: "block list \<Rightarrow> int \<Rightarrow> bool" where
  "validIndex bs i \<longleftrightarrow> 0 \<le> i \<and> i < int (length bs)"

definition placeholder :: block where
  "placeholder = \<lparr>blockId = [], blockName = ''paragraph'', foreignKey = None,
     holderId = None, status = None, hidden = False, toggleItem = False,
     onkeydown = False, selectors = []\<rparr>"

definition getBlockByIndex :: "block list \<Rightarrow> int \<Rightarrow> block" where
  "getBlockByIndex bs i = (if validIndex bs i then bs ! nat i else placeholder)"


definition moveBlocks :: "int \<Rightarrow> int \<Rightarrow> block list \<Rightarrow> block list" where
  "moveBlocks toIndex fromIndex bs =
     (if validIndex bs toIndex \<and> validIndex bs fromIndex
      then (let b = bs ! nat fromIndex;
                rest = take (nat fromIndex) bs @ drop (Suc (nat fromIndex)) bs
            in take (nat toIndex) rest @ b # drop (nat toIndex) rest)
      else bs)"

definition deleteBlocks :: "int \<Rightarrow> block list \<Rightarrow> block list" where
  "deleteBlocks i bs =
     (if validIndex bs i then take (nat i) bs @ drop (Suc (nat i)) bs else bs)"

definition move :: "int \<Rightarrow> int \<Rightarrow> state \<Rightarrow> state" where
  "move toIndex fromIndex s =
     s\<lparr>blocks := moveBlocks toIndex fromIndex (blocks s),
       calls := calls s @ [Move toIndex fromIndex]\<rparr>"

definition delete :: "int \<Rightarrow> state \<Rightarrow> state" where
  "delete i s = s\<lparr>blocks := deleteBlocks i (blocks s), calls := calls s @ [Delete i]\<rparr>"


definition close :: "state \<Rightarrow> state" where
  "close s = s\<lparr>calls := calls s @ [CloseToolbar]\<rparr>"

subsection \<open>Queries over the holders\<close>

text \<open>
  \<^verbatim>\<open>document.querySelectorAll(`div[foreignKey="${fk}"]`)\<close>: the holders whose
  \<^verbatim>\<open>foreignKey\<close> attribute is \<open>fk\<close>, in document order; once as the holders themselves
  (for code that only reads them) and once as their positions (for code that writes to
  them).
\<close>

definition queryForeignKey :: "block list \<Rightarrow> string \<Rightarrow> block list" where
  "queryForeignKey bs fk = filter (\<lambda>b. foreignKey b = Some fk) bs"

definition queryForeignKeyAt :: "block list \<Rightarrow> string \<Rightarrow> nat list" where
  "queryForeignKeyAt bs fk = filter (\<lambda>i. foreignKey (bs ! i) = Some fk) [0..<length bs]"

text \<open>
  \<^verbatim>\<open>forEach\<close> with a loop state; an exception thrown by the body ends the loop.
  \<^verbatim>\<open>some\<close> stops at the first element the predicate accepts.
\<close>

fun forEach :: "('a \<Rightarrow> 's \<Rightarrow> error + 's) \<Rightarrow> 'a list \<Rightarrow> 's \<Rightarrow> error + 's" where
  "forEach f [] s = Inr s"
| "forEach f (x # xs) s = (case f x s of Inl e \<Rightarrow> Inl e | Inr s' \<Rightarrow> forEach f xs s')"

fun arraySome :: "('a \<Rightarrow> error + bool) \<Rightarrow> 'a list \<Rightarrow> error + bool" where
  "arraySome p [] = Inr False"
| "arraySome p (x # xs) =
     (case p x of Inl e \<Rightarrow> Inl e | Inr r \<Rightarrow> if r then Inr True else arraySome p xs)"

section \<open>Hierarchy queries\<close>

text \<open>
  \<^verbatim>\<open>getDecendentsNumber(fk)\<close> and \<^verbatim>\<open>isChild(parentID, targetFK)\<close> recurse through the
  nested toggles. The first argument of the model is the call depth the JavaScript stack
  still allows: a recursion that exhausts it throws \<^verbatim>\<open>RangeError\<close>.
  \<^verbatim>\<open>child.querySelector('.toggle-block__selector').getAttribute('id')\<close> throws
  \<^verbatim>\<open>TypeError\<close> when the holder has no such element.
\<close>

fun getDecendentsNumber :: "nat \<Rightarrow> block list \<Rightarrow> string \<Rightarrow> error + nat" where
  "getDecendentsNumber 0 bs fk = Inl RangeError"
| "getDecendentsNumber (Suc depth) bs fk =
     forEach (\<lambda>child counter.
         if status child \<noteq> None
         then (case selectors child of
                 [] \<Rightarrow> Inl TypeError
               | childId # _ \<Rightarrow>
                   (case getDecendentsNumber depth bs childId of
                      Inl e \<Rightarrow> Inl e
                    | Inr k \<Rightarrow> Inr (counter + k + 1)))
         else Inr (counter + 1))
       (queryForeignKey bs fk) 0"

fun isChild :: "nat \<Rightarrow> block list \<Rightarrow> string option \<Rightarrow> string option \<Rightarrow> error + bool" where
  "isChild 0 bs parentID targetFK = Inl RangeError"
| "isChild (Suc depth) bs parentID targetFK =
     (case parentID of
        None \<Rightarrow> Inr False
      | Some p \<Rightarrow>
         (case targetFK of
            None \<Rightarrow> Inr False
          | Some t \<Rightarrow>
              if p = [] \<or> t = [] then Inr False
              else if p = t then Inr True
              else arraySome (\<lambda>child.
                       case selectors child of
                         [] \<Rightarrow> Inr False
                       | toggleId # _ \<Rightarrow> isChild depth bs (Some toggleId) targetFK)
                     (queryForeignKey bs p)))"

text \<open>A value is absent for \<^verbatim>\<open>isChild\<close> when JavaScript reads it as false.\<close>

definition absent :: "string option \<Rightarrow> bool" where
  "absent v = (case v of None \<Rightarrow> True | Some x \<Rightarrow> x = [])"


section \<open>Ancestor lookups\<close>





section \<open>Tagging\<close>

text \<open>
  \<^verbatim>\<open>Array.prototype.splice\<close> as the tagger uses it: a negative start counts from the end,
  a start past the end is the end. \<^verbatim>\<open>indexOf\<close> is \<open>-1\<close> for an absent element.
\<close>

definition spliceStart :: "int \<Rightarrow> nat \<Rightarrow> nat" where
  "spliceStart start len =
     (if start < 0 then nat (max (int len + start) 0) else min (nat start) len)"

definition spliceInsert :: "int \<Rightarrow> 'a \<Rightarrow> 'a list \<Rightarrow> 'a list" where
  "spliceInsert start x xs = (let k = spliceStart start (length xs) in take k xs @ x # drop k xs)"

definition spliceRemove1 :: "int \<Rightarrow> 'a list \<Rightarrow> 'a list" where
  "spliceRemove1 start xs = (let k = spliceStart start (length xs) in take k xs @ drop (Suc k) xs)"

fun indexOf :: "'a list \<Rightarrow> 'a \<Rightarrow> int" where
  "indexOf [] x = - 1"
| "indexOf (y # ys) x =
     (if y = x then 0 else (let r = indexOf ys x in if r < 0 then - 1 else r + 1))"

text \<open>A write to the holder at a position; a write to the placeholder block is lost.\<close>

definition updateHolder :: "int \<Rightarrow> (block \<Rightarrow> block) \<Rightarrow> block list \<Rightarrow> block list" where
  "updateHolder i f bs = (if validIndex bs i then bs[nat i := f (bs ! nat i)] else bs)"

text \<open>
  \<^verbatim>\<open>setAttributesToNewBlock(entryIndex = null, foreignKey = this.wrapper.id)\<close>; \<open>uuid\<close> is the
  value \<^verbatim>\<open>uuidv4()\<close> returns in this call. The focus it sends is not modelled.
\<close>

definition setAttributesToNewBlock ::
  "string \<Rightarrow> int option \<Rightarrow> string option \<Rightarrow> state \<Rightarrow> state" where
  "setAttributesToNewBlock uuid entryIndex foreignKeyArg s =
     (let index = (case entryIndex of None \<Rightarrow> currentBlockIndex s | Some i \<Rightarrow> i);
          fk = (case foreignKeyArg of None \<Rightarrow> wrapperId s | Some f \<Rightarrow> f);
          newBlock = getBlockByIndex (blocks s) index;
          bs' = updateHolder index
                  (\<lambda>holder. holder\<lparr>foreignKey := Some fk, holderId := Some uuid,
                     toggleItem := True,
                     onkeydown := (if readOnly s then onkeydown holder else True)\<rparr>)
                  (blocks s)
      in s\<lparr>blocks := bs',
           itemsId := (if blockId newBlock \<in> set (itemsId s) then itemsId s
                       else spliceInsert (index - 1) (blockId newBlock) (itemsId s))\<rparr>)"

definition removeAttributesFromNewBlock :: "int \<Rightarrow> state \<Rightarrow> state" where
  "removeAttributesFromNewBlock destiny s =
     (let newBlock = getBlockByIndex (blocks s) destiny;
          items' = (if \<not> (blockId newBlock \<in> set (itemsId s))
                    then spliceRemove1 (indexOf (itemsId s) (blockId newBlock)) (itemsId s)
                    else itemsId s)
      in s\<lparr>blocks := updateHolder destiny
                 (\<lambda>holder. holder\<lparr>foreignKey := None, holderId := None,
                    toggleItem := False, onkeydown := False\<rparr>)
                 (blocks s),
           itemsId := items'\<rparr>)"


section \<open>Removing a whole toggle\<close>

function removeFullToggle_loop :: "int \<Rightarrow> int \<Rightarrow> int \<Rightarrow> state \<Rightarrow> state" where
  "removeFullToggle_loop i bound toggleIndex s =
     (if i < bound then removeFullToggle_loop (i + 1) bound toggleIndex (delete toggleIndex s)
      else s)"
  by pat_completeness auto
termination
  by (relation "measure (\<lambda>(i, bound, toggleIndex, s). nat (bound - i))") auto

definition removeFullToggle :: "int \<Rightarrow> state \<Rightarrow> state" where
  "removeFullToggle toggleIndex s =
     (let children = queryForeignKey (blocks s) (wrapperId s);
          len = int (length children)
      in removeFullToggle_loop toggleIndex (toggleIndex + len) toggleIndex s)"

section \<open>Moving the descendants\<close>

text \<open>
  \<^verbatim>\<open>moveDecendents\<close> loops \<^verbatim>\<open>while (children)\<close>, which stops only at zero: the model does
  not return (\<open>None\<close>) where the loop does not.
\<close>

partial_function (option) moveDecendents ::
  "int \<Rightarrow> int \<Rightarrow> int \<Rightarrow> int \<Rightarrow> state \<Rightarrow> state option" where
  "moveDecendents children finalIndex parentInitialIndex direction s =
     (if children \<noteq> 0
      then moveDecendents (children - 1)
             (if direction = 0 then finalIndex + 1 else finalIndex)
             (if direction = 0 then parentInitialIndex + 1 else parentInitialIndex)
             direction (move finalIndex parentInitialIndex s)
      else Some s)"

text \<open>The moves the loop issues from its starting positions, in order.\<close>

fun descendantMoves :: "nat \<Rightarrow> int \<Rightarrow> int \<Rightarrow> int \<Rightarrow> call list" where
  "descendantMoves 0 finalIndex parentInitialIndex direction = []"
| "descendantMoves (Suc n) finalIndex parentInitialIndex direction =
     Move finalIndex parentInitialIndex #
     descendantMoves n (if direction = 0 then finalIndex + 1 else finalIndex)
       (if direction = 0 then parentInitialIndex + 1 else parentInitialIndex) direction"





section \<open>Extracting a block\<close>


section \<open>Visibility\<close>

definition truthy :: "string option \<Rightarrow> bool" where
  "truthy v = (case v of None \<Rightarrow> False | Some x \<Rightarrow> x \<noteq> [])"

definition setHidden :: "nat \<Rightarrow> bool \<Rightarrow> state \<Rightarrow> state" where
  "setHidden child v s = s\<lparr>blocks := (blocks s)[child := (blocks s ! child)\<lparr>hidden := v\<rparr>]\<rparr>"

text \<open>
  \<^verbatim>\<open>hideAndShowBlocks(foreignKey = this.wrapper.id, value = this.data.status)\<close>; the
  children are the positions of the holders the query returned, which the writes to
  \<^verbatim>\<open>hidden\<close> do not move.
\<close>

fun hideAndShowBlocks :: "nat \<Rightarrow> string \<Rightarrow> string option \<Rightarrow> state \<Rightarrow> error + state" where
  "hideAndShowBlocks 0 fk v s = Inl RangeError"
| "hideAndShowBlocks (Suc depth) fk v s =
     (let children = queryForeignKeyAt (blocks s) fk
      in if length children > 0
         then forEach (\<lambda>child s.
                  let s1 = setHidden child (v = Some ''closed'') s
                  in case selectors (blocks s1 ! child) of
                       [] \<Rightarrow> Inr s1
                     | toggleId # _ \<Rightarrow>
                         (let childValue = (if v = Some ''closed'' then v
                                            else status (blocks s1 ! child))
                          in hideAndShowBlocks depth toggleId childValue s1))
                children s
         else if fk = wrapperId s then Inr (s\<lparr>defaultContentHidden := truthy v\<rparr>)
         else Inr s)"

section \<open>Dropping a dragged toggle\<close>

text \<open>
  Where the holder that stood at position \<open>i\<close> stands after \<^verbatim>\<open>move(toIndex, fromIndex)\<close>.
\<close>

definition indexAfterMove :: "block list \<Rightarrow> int \<Rightarrow> int \<Rightarrow> int \<Rightarrow> int" where
  "indexAfterMove bs toIndex fromIndex i =
     (if validIndex bs toIndex \<and> validIndex bs fromIndex
      then (if i = fromIndex then toIndex
            else (let j = (if i > fromIndex then i - 1 else i)
                  in if j \<ge> toIndex then j + 1 else j))
      else i)"

text \<open>
  The \<^verbatim>\<open>drop\<close> listener of \<^verbatim>\<open>addSupportForDragAndDropActions\<close>, with the body it defers.
  \<open>target\<close> and \<open>dragged\<close> are the positions of \<^verbatim>\<open>dropTarget\<close> and of
  \<^verbatim>\<open>this.holderDragged\<close> when the listener runs. \<^verbatim>\<open>moveChildren\<close> is a parameter
  \<open>moveChildren\<close> of the model: it takes the end position, the position of the dragged
  holder and the state, and returns the state and the new position of the dragged holder.
\<close>

definition onDrop ::
  "(int \<Rightarrow> int \<Rightarrow> state \<Rightarrow> error + state \<times> int) \<Rightarrow> nat \<Rightarrow> string \<Rightarrow> int \<Rightarrow> int \<Rightarrow> state
     \<Rightarrow> error + state" where
  "onDrop moveChildren depth uuid target dragged s =
     (if readOnly s \<or> target = dragged \<or> \<not> validIndex (blocks s) target then Inr s
      else
       (let dropTarget = getBlockByIndex (blocks s) target;
            endBlock = (if startBlock s < target then target + 1 else target);
            isTargetAToggle = (length (selectors dropTarget) > 0 \<or> foreignKey dropTarget \<noteq> None)
        in case (if nameDragged s = ''toggle''
                    \<and> wrapperId s \<in> set (selectors (getBlockByIndex (blocks s) dragged))
                 then (case isChild depth (blocks s) (Some (wrapperId s)) (foreignKey dropTarget) of
                         Inl e \<Rightarrow> Inl e
                       | Inr inside \<Rightarrow>
                          if \<not> inside
                          then moveChildren endBlock dragged
                                 (if isTargetAToggle
                                  then setAttributesToNewBlock uuid (Some dragged)
                                         (Some (case foreignKey dropTarget of
                                                  Some fk \<Rightarrow> fk
                                                | None \<Rightarrow> hd (selectors dropTarget)))
                                         s
                                  else s)
                          else (let toIndex = (if startBlock s = endBlock then startBlock s + 1
                                               else startBlock s);
                                    s1 = move toIndex endBlock s;
                                    dragged1 = indexAfterMove (blocks s) toIndex endBlock dragged
                                in Inr (if \<not> isTargetAToggle
                                        then removeAttributesFromNewBlock dragged1 s1 else s1,
                                        dragged1)))
                 else Inr (s, dragged)) of
             Inl e \<Rightarrow> Inl e
           | Inr (s2, dragged2) \<Rightarrow>
               Inr (if \<not> isTargetAToggle then removeAttributesFromNewBlock dragged2 s2 else s2)))"

section \<open>The forest the tags describe\<close>

text \<open>
  What the claims speak of, stated over the holders and independently of the code:
  \<open>(p, c) \<in> nested bs\<close> when a holder tagged with parent link \<open>p\<close> is a toggle root with
  id \<open>c\<close>; \<open>descendants bs r\<close> are the positions of the tagged holders reachable from \<open>r\<close>
  through nested roots; \<open>direct bs r\<close> those tagged with \<open>r\<close> itself and \<open>toggles bs r\<close> the
  toggle roots among them.
\<close>

definition nested :: "block list \<Rightarrow> (string \<times> string) set" where
  "nested bs = {(p, c). \<exists>b \<in> set bs. foreignKey b = Some p \<and> (\<exists>cs. selectors b = c # cs)}"

definition descendants :: "block list \<Rightarrow> string \<Rightarrow> nat set" where
  "descendants bs r =
     {i. i < length bs \<and> (\<exists>p. (r, p) \<in> (nested bs)\<^sup>* \<and> foreignKey (bs ! i) = Some p)}"

definition direct :: "block list \<Rightarrow> string \<Rightarrow> nat set" where
  "direct bs r = {i. i < length bs \<and> foreignKey (bs ! i) = Some r}"

definition toggles :: "block list \<Rightarrow> string \<Rightarrow> nat set" where
  "toggles bs r = {i. i < length bs \<and> foreignKey (bs ! i) = Some r \<and> selectors (bs ! i) \<noteq> []}"

text \<open>
  \<open>shut bs r\<close>: the positions below \<open>r\<close> that a closed toggle nested in \<open>r\<close> keeps
  hidden, namely the descendants of a toggle root that is itself a descendant of \<open>r\<close> and
  whose stored status is \<^verbatim>\<open>'closed'\<close>.
\<close>

definition shut :: "block list \<Rightarrow> string \<Rightarrow> nat set" where
  "shut bs r = {j. \<exists>t \<in> descendants bs r. selectors (bs ! t) \<noteq> []
                      \<and> status (bs ! t) = Some ''closed''
                      \<and> j \<in> descendants bs (hd (selectors (bs ! t)))}"

text \<open>The holders with their \<^verbatim>\<open>hidden\<close> flags cleared: what a change of visibility keeps.\<close>

definition skeleton :: "block list \<Rightarrow> block list" where
  "skeleton bs = map (\<lambda>b. b\<lparr>hidden := False\<rparr>) bs"


text \<open>
  Well-formed documents. \<open>ranked rk bs\<close>: nesting is acyclic, a nested root's id ranking
  below the id it is tagged with. \<open>rootIds bs\<close>: the ids of the toggle roots, which the
  data model requires to be unique. \<open>statusMarksRoots bs\<close>: the holders that carry the
  \<^verbatim>\<open>status\<close> attribute are the toggle roots (every instance writes it on its own holder).
\<close>

definition ranked :: "(string \<Rightarrow> nat) \<Rightarrow> block list \<Rightarrow> bool" where
  "ranked rk bs = list_all (\<lambda>b. case foreignKey b of None \<Rightarrow> True
      | Some p \<Rightarrow> (case selectors b of [] \<Rightarrow> True | c # _ \<Rightarrow> rk c < rk p)) bs"

definition rootIds :: "block list \<Rightarrow> string list" where
  "rootIds bs = concat (map (\<lambda>b. case selectors b of [] \<Rightarrow> [] | c # _ \<Rightarrow> [c]) bs)"

definition statusMarksRoots :: "block list \<Rightarrow> bool" where
  "statusMarksRoots bs = list_all (\<lambda>b. (status b \<noteq> None) = (selectors b \<noteq> [])) bs"

section \<open>Example documents\<close>

definition plainBlock :: "string \<Rightarrow> string option \<Rightarrow> block" where
  "plainBlock bid fk = \<lparr>blockId = bid, blockName = ''paragraph'', foreignKey = fk,
     holderId = None, status = None, hidden = False, toggleItem = (fk \<noteq> None),
     onkeydown = (fk \<noteq> None), selectors = []\<rparr>"

definition toggleRoot :: "string \<Rightarrow> string option \<Rightarrow> string \<Rightarrow> string \<Rightarrow> block" where
  "toggleRoot bid fk rootId st = \<lparr>blockId = bid, blockName = ''toggle'', foreignKey = fk,
     holderId = None, status = Some st, hidden = False, toggleItem = (fk \<noteq> None),
     onkeydown = (fk \<noteq> None), selectors = [rootId]\<rparr>"

definition editorOf :: "block list \<Rightarrow> string \<Rightarrow> string \<Rightarrow> state" where
  "editorOf bs wid st = \<lparr>blocks = bs, calls = [], currentBlockIndex = 0, wrapperId = wid,
     dataStatus = st, itemsId = [], readOnly = False, defaultContentHidden = False,
     startBlock = 0, nameDragged = ''toggle''\<rparr>"

text \<open>
  Scenario B of the spec: a closed toggle \<open>R\<close> with a plain member and a nested open
  toggle \<open>T\<close> that has one member.
\<close>

definition scenarioB :: "block list" where
  "scenarioB = [toggleRoot ''b0'' None ''R'' ''closed'', plainBlock ''b1'' (Some ''R''),
                toggleRoot ''b2'' (Some ''R'') ''T'' ''open'', plainBlock ''b3'' (Some ''T'')]"

text \<open>Scenario D of the spec: a toggle \<open>R\<close> with two plain members, and a block after them.\<close>

definition scenarioD :: "block list" where
  "scenarioD = [toggleRoot ''d0'' None ''R'' ''open'', plainBlock ''d1'' (Some ''R''),
                plainBlock ''d2'' (Some ''R''), plainBlock ''d3'' None]"

text \<open>
  A toggle \<open>R\<close> whose membership list holds its one member \<open>a\<close>, followed by an untagged
  block \<open>b\<close>.
\<close>

definition untaggedDrag :: state where
  "untaggedDrag = (editorOf [toggleRoot ''t0'' None ''R'' ''open'', plainBlock ''a'' (Some ''R''),
                     plainBlock ''b'' None] ''R'' ''open'')\<lparr>itemsId := [''a'']\<rparr>"


text \<open>
  A toggle \<open>R\<close> with two members and a block after them; and the state its listener
  finds when the root has been dropped on the second member.
\<close>

definition dropDoc :: "block list" where
  "dropDoc = [toggleRoot ''f0'' None ''R'' ''open'', plainBlock ''f1'' (Some ''R''),
              plainBlock ''f2'' (Some ''R''), plainBlock ''f3'' None]"

definition droppedOnMember :: state where
  "droppedOnMember = (editorOf dropDoc ''R'' ''open'')\<lparr>blocks := moveBlocks 2 0 dropDoc\<rparr>"

text \<open>
  A block tagged with \<open>R\<close> that stands above the root of \<open>R\<close> (where a member lands when
  it is dropped on its own root, keeping its tag), the root, and an untagged block; and
  the state the listener finds when the root, dragged from position 1, has been dropped
  on the tagged block at position 0.
\<close>

definition dropAboveDoc :: "block list" where
  "dropAboveDoc = [plainBlock ''g0'' (Some ''R''), toggleRoot ''g1'' None ''R'' ''open'',
                   plainBlock ''g2'' None]"

definition droppedOnMemberAbove :: state where
  "droppedOnMemberAbove = (editorOf dropAboveDoc ''R'' ''open'')
      \<lparr>blocks := moveBlocks 0 1 dropAboveDoc, startBlock := 1\<rparr>"



definition rankB :: "string \<Rightarrow> nat" where
  "rankB x = (if x = ''R'' then 1 else 0)"

text \<open>
  An open toggle \<open>R\<close> that holds an open toggle \<open>T\<close>, which holds a closed toggle \<open>U\<close>
  with one member.
\<close>

definition deepDoc :: "block list" where
  "deepDoc = [toggleRoot ''h0'' None ''R'' ''open'', toggleRoot ''h1'' (Some ''R'') ''T'' ''open'',
              toggleRoot ''h2'' (Some ''T'') ''U'' ''closed'', plainBlock ''h3'' (Some ''U'')]"

definition rankDeep :: "string \<Rightarrow> nat" where
  "rankDeep x = (if x = ''R'' then 2 else if x = ''T'' then 1 else 0)"

section \<open>Properties\<close>

lemma calls_move: "calls (move t f s) = calls s @ [Move t f]"
  by (simp add: move_def)

lemma length_descendantMoves: "length (descendantMoves n f p dir) = n"
  by (induction n arbitrary: f p) simp_all

lemma moveDecendents_nat:
  "\<exists>s'. moveDecendents (int n) f p dir s = Some s'
        \<and> calls s' = calls s @ descendantMoves n f p dir"
proof (induction n arbitrary: f p s)
  case 0
  show ?case by (subst moveDecendents.simps) simp
next
  case (Suc n)
  let ?f = "if dir = 0 then f + 1 else f"
  let ?p = "if dir = 0 then p + 1 else p"
  obtain s' where s': "moveDecendents (int n) ?f ?p dir (move f p s) = Some s'"
    "calls s' = calls (move f p s) @ descendantMoves n ?f ?p dir"
    using Suc.IH by blast
  have "moveDecendents (int (Suc n)) f p dir s = moveDecendents (int n) ?f ?p dir (move f p s)"
    by (subst moveDecendents.simps) simp
  with s' show ?case by (simp add: calls_move)
qed

subsection \<open>Counting descendants\<close>

lemma forEach_sum:
  "(\<And>x c. x \<in> set xs \<Longrightarrow> f x c = Inr (c + g x)) \<Longrightarrow> forEach f xs c0 = Inr (c0 + sum_list (map g xs))"
  by (induction xs arbitrary: c0) (simp_all add: add.assoc)

lemma sum_list_filter_nth:
  "sum_list (map g (filter P xs)) = (\<Sum>i \<in> {i. i < length xs \<and> P (xs ! i)}. g (xs ! i))"
proof -
  have "sum_list (map g (filter P xs)) = sum_list (map (\<lambda>x. if P x then g x else 0) xs)"
    by (induction xs) simp_all
  also have "\<dots> = (\<Sum>i = 0..<length xs. if P (xs ! i) then g (xs ! i) else 0)"
    by (simp add: sum_list_sum_nth)
  also have "\<dots> = (\<Sum>i \<in> {i \<in> {0..<length xs}. P (xs ! i)}. g (xs ! i))"
    by (rule sum.inter_filter[symmetric]) simp
  also have "{i \<in> {0..<length xs}. P (xs ! i)} = {i. i < length xs \<and> P (xs ! i)}" by auto
  finally show ?thesis .
qed

lemma nested_iff:
  "(p, c) \<in> nested bs \<longleftrightarrow> (\<exists>i \<in> toggles bs p. hd (selectors (bs ! i)) = c)"
proof
  assume "(p, c) \<in> nested bs"
  then obtain b cs where b: "b \<in> set bs" "foreignKey b = Some p" "selectors b = c # cs"
    unfolding nested_def by blast
  then obtain i where "i < length bs" "bs ! i = b" by (auto simp: in_set_conv_nth)
  with b have "i \<in> toggles bs p" "hd (selectors (bs ! i)) = c" by (simp_all add: toggles_def)
  then show "\<exists>i \<in> toggles bs p. hd (selectors (bs ! i)) = c" by blast
next
  assume "\<exists>i \<in> toggles bs p. hd (selectors (bs ! i)) = c"
  then obtain i where i: "i < length bs" "foreignKey (bs ! i) = Some p" "selectors (bs ! i) \<noteq> []"
    "hd (selectors (bs ! i)) = c" by (auto simp: toggles_def)
  then obtain cs where "selectors (bs ! i) = c # cs" by (cases "selectors (bs ! i)") auto
  with i have "bs ! i \<in> set bs" "foreignKey (bs ! i) = Some p" "\<exists>cs. selectors (bs ! i) = c # cs"
    by simp_all
  then show "(p, c) \<in> nested bs" unfolding nested_def by blast
qed

lemma ranked_nested: "ranked rk bs \<Longrightarrow> (p, c) \<in> nested bs \<Longrightarrow> rk c < rk p"
  unfolding ranked_def nested_def list_all_iff by fastforce

lemma ranked_rtrancl:
  assumes "ranked rk bs" "(p, c) \<in> (nested bs)\<^sup>*"
  shows "rk c \<le> rk p"
  using assms(2)
proof (induction rule: rtrancl_induct)
  case base
  show ?case by simp
next
  case (step y z)
  with ranked_nested[OF assms(1), of y z] show ?case by simp
qed

lemma rootIds_Cons:
  "rootIds (b # bs) = (case selectors b of [] \<Rightarrow> [] | c # _ \<Rightarrow> [c]) @ rootIds bs"
  by (simp add: rootIds_def)

lemma rootIds_mem:
  assumes "k < length bs" "selectors (bs ! k) = c # ds"
  shows "c \<in> set (rootIds bs)"
proof -
  have "bs ! k \<in> set bs" using assms by simp
  moreover have "c \<in> set (case selectors (bs ! k) of [] \<Rightarrow> [] | c # _ \<Rightarrow> [c])" using assms by simp
  ultimately show ?thesis unfolding rootIds_def by auto
qed

lemma distinct_rootIds:
  assumes "distinct (rootIds bs)" "i < length bs" "j < length bs"
    "selectors (bs ! i) = c # cs" "selectors (bs ! j) = c # cs'"
  shows "i = j"
  using assms
proof (induction bs arbitrary: i j)
  case Nil then show ?case by simp
next
  case (Cons b bs)
  have d: "distinct (rootIds bs)" using Cons.prems(1) by (simp add: rootIds_Cons)
  have hd_notin: "c \<notin> set (rootIds bs)" if "selectors b = c # ds" for ds
    using Cons.prems(1) that by (simp add: rootIds_Cons)
  show ?case
  proof (cases i)
    case 0
    note i0 = this
    show ?thesis
    proof (cases j)
      case 0 with i0 show ?thesis by simp
    next
      case (Suc j')
      have "c \<in> set (rootIds bs)" using rootIds_mem[of j' bs c cs'] Cons.prems Suc by simp
      moreover have "c \<notin> set (rootIds bs)" using hd_notin[of cs] Cons.prems i0 by simp
      ultimately show ?thesis by simp
    qed
  next
    case (Suc i')
    note iS = this
    show ?thesis
    proof (cases j)
      case 0
      have "c \<in> set (rootIds bs)" using rootIds_mem[of i' bs c cs] Cons.prems iS by simp
      moreover have "c \<notin> set (rootIds bs)" using hd_notin[of cs'] Cons.prems 0 by simp
      ultimately show ?thesis by simp
    next
      case (Suc j')
      have "i' = j'" using Cons.IH[of i' j'] d Cons.prems iS Suc by simp
      with iS Suc show ?thesis by simp
    qed
  qed
qed

lemma unique_parent:
  assumes "distinct (rootIds bs)" "(p, c) \<in> nested bs" "(q, c) \<in> nested bs"
  shows "p = q"
proof -
  from assms(2) obtain i where i: "i \<in> toggles bs p" "hd (selectors (bs ! i)) = c"
    by (auto simp: nested_iff)
  from assms(3) obtain j where j: "j \<in> toggles bs q" "hd (selectors (bs ! j)) = c"
    by (auto simp: nested_iff)
  from i obtain cs where "selectors (bs ! i) = c # cs" by (cases "selectors (bs ! i)") (auto simp: toggles_def)
  moreover from j obtain cs' where "selectors (bs ! j) = c # cs'" by (cases "selectors (bs ! j)") (auto simp: toggles_def)
  ultimately have "i = j" using distinct_rootIds[OF assms(1)] i j by (auto simp: toggles_def)
  with i j show ?thesis by (auto simp: toggles_def)
qed

lemma forest_comparable:
  assumes "distinct (rootIds bs)" "(y, z) \<in> (nested bs)\<^sup>*" "(y', z) \<in> (nested bs)\<^sup>*"
  shows "(y, y') \<in> (nested bs)\<^sup>* \<or> (y', y) \<in> (nested bs)\<^sup>*"
  using assms(2,3)
proof (induction arbitrary: rule: rtrancl_induct)
  case base
  then show ?case by simp
next
  case (step w z)
  from step.prems show ?case
  proof (cases rule: rtranclE)
    case base
    with step.hyps show ?thesis by auto
  next
    case (step w')
    with unique_parent[OF assms(1) \<open>(w, z) \<in> nested bs\<close>] have "w' = w" by auto
    with step step.IH show ?thesis by auto
  qed
qed


lemma finite_descendants: "finite (descendants bs r)"
  by (rule finite_subset[of _ "{..<length bs}"]) (auto simp: descendants_def)

lemma finite_direct: "finite (direct bs r)"
  by (rule finite_subset[of _ "{..<length bs}"]) (auto simp: direct_def)

lemma finite_toggles: "finite (toggles bs r)"
  by (rule finite_subset[of _ "{..<length bs}"]) (auto simp: toggles_def)

lemma toggles_nested: "i \<in> toggles bs r \<Longrightarrow> (r, hd (selectors (bs ! i))) \<in> nested bs"
  by (auto simp: nested_iff)

lemma descendants_unfold:
  "descendants bs r = direct bs r \<union> (\<Union>i \<in> toggles bs r. descendants bs (hd (selectors (bs ! i))))"
proof (rule set_eqI, rule iffI)
  fix k assume "k \<in> descendants bs r"
  then obtain p where k: "k < length bs" "(r, p) \<in> (nested bs)\<^sup>*" "foreignKey (bs ! k) = Some p"
    by (auto simp: descendants_def)
  from k(2) show "k \<in> direct bs r \<union> (\<Union>i \<in> toggles bs r. descendants bs (hd (selectors (bs ! i))))"
  proof (cases rule: converse_rtranclE)
    case base
    with k show ?thesis by (simp add: direct_def)
  next
    case (step c)
    then obtain i where i: "i \<in> toggles bs r" "hd (selectors (bs ! i)) = c"
      by (auto simp: nested_iff)
    with step k have "k \<in> descendants bs (hd (selectors (bs ! i)))"
      by (auto simp: descendants_def)
    with i show ?thesis by blast
  qed
next
  fix k assume "k \<in> direct bs r \<union> (\<Union>i \<in> toggles bs r. descendants bs (hd (selectors (bs ! i))))"
  then show "k \<in> descendants bs r"
  proof
    assume "k \<in> direct bs r"
    then show ?thesis by (auto simp: direct_def descendants_def)
  next
    assume "k \<in> (\<Union>i \<in> toggles bs r. descendants bs (hd (selectors (bs ! i))))"
    then obtain i p where i: "i \<in> toggles bs r" "k < length bs"
      "(hd (selectors (bs ! i)), p) \<in> (nested bs)\<^sup>*" "foreignKey (bs ! k) = Some p"
      by (auto simp: descendants_def)
    from toggles_nested[OF i(1)] i(3) have "(r, p) \<in> (nested bs)\<^sup>*"
      by (rule converse_rtrancl_into_rtrancl)
    with i show ?thesis by (auto simp: descendants_def)
  qed
qed

lemma direct_not_below:
  assumes "ranked rk bs" "i \<in> toggles bs r"
  shows "direct bs r \<inter> descendants bs (hd (selectors (bs ! i))) = {}"
proof (rule ccontr)
  assume "\<not> ?thesis"
  then obtain k where "k \<in> direct bs r" "k \<in> descendants bs (hd (selectors (bs ! i)))" by blast
  then have "(hd (selectors (bs ! i)), r) \<in> (nested bs)\<^sup>*"
    by (auto simp: direct_def descendants_def)
  from ranked_rtrancl[OF assms(1) this] ranked_nested[OF assms(1) toggles_nested[OF assms(2)]]
  show False by simp
qed

lemma siblings_disjoint:
  assumes "ranked rk bs" "distinct (rootIds bs)" "i \<in> toggles bs r" "j \<in> toggles bs r" "i \<noteq> j"
  shows "descendants bs (hd (selectors (bs ! i))) \<inter> descendants bs (hd (selectors (bs ! j))) = {}"
proof (rule ccontr)
  let ?y = "hd (selectors (bs ! i))" and ?y' = "hd (selectors (bs ! j))"
  assume "\<not> ?thesis"
  then obtain k where "k \<in> descendants bs ?y" "k \<in> descendants bs ?y'" by blast
  then obtain z where z: "(?y, z) \<in> (nested bs)\<^sup>*" "(?y', z) \<in> (nested bs)\<^sup>*"
    by (auto simp: descendants_def)
  have ne: "?y \<noteq> ?y'"
  proof
    assume eq: "?y = ?y'"
    have li: "i < length bs" and lj: "j < length bs" using assms(3,4) by (simp_all add: toggles_def)
    have "selectors (bs ! i) \<noteq> []" using assms(3) by (simp add: toggles_def)
    then have si: "selectors (bs ! i) = ?y # tl (selectors (bs ! i))" by simp
    have "selectors (bs ! j) \<noteq> []" using assms(4) by (simp add: toggles_def)
    then have "selectors (bs ! j) = ?y' # tl (selectors (bs ! j))" by simp
    then have sj: "selectors (bs ! j) = ?y # tl (selectors (bs ! j))" unfolding eq .
    have "i = j" by (rule distinct_rootIds[OF assms(2) li lj si sj])
    with assms(5) show False by simp
  qed
  have below: False if "(a, b) \<in> (nested bs)\<^sup>*" "a \<noteq> b" "(r, a) \<in> nested bs" "(r, b) \<in> nested bs" for a b
    using that(1)
  proof (cases rule: rtranclE)
    case base
    with that(2) show ?thesis by simp
  next
    case (step w)
    from unique_parent[OF assms(2) step(2) that(4)] have "w = r" .
    with step have "(a, r) \<in> (nested bs)\<^sup>*" by simp
    from ranked_rtrancl[OF assms(1) this] ranked_nested[OF assms(1) that(3)] show False by simp
  qed
  from forest_comparable[OF assms(2) z] show False
  proof
    assume "(?y, ?y') \<in> (nested bs)\<^sup>*"
    from below[OF this ne toggles_nested[OF assms(3)] toggles_nested[OF assms(4)]] show False .
  next
    assume "(?y', ?y) \<in> (nested bs)\<^sup>*"
    from below[OF this ne[symmetric] toggles_nested[OF assms(4)] toggles_nested[OF assms(3)]] show False .
  qed
qed

lemma card_descendants:
  assumes "ranked rk bs" "distinct (rootIds bs)"
  shows "card (descendants bs r) =
    card (direct bs r) + (\<Sum>i \<in> toggles bs r. card (descendants bs (hd (selectors (bs ! i)))))"
proof -
  let ?U = "\<Union>i \<in> toggles bs r. descendants bs (hd (selectors (bs ! i)))"
  have fU: "finite ?U" using finite_toggles finite_descendants by blast
  have disj: "direct bs r \<inter> ?U = {}" using direct_not_below[OF assms(1)] by blast
  have "card (descendants bs r) = card (direct bs r \<union> ?U)"
    by (subst descendants_unfold) simp
  also have "\<dots> = card (direct bs r) + card ?U"
    by (rule card_Un_disjoint[OF finite_direct fU disj])
  also have "card ?U = (\<Sum>i \<in> toggles bs r. card (descendants bs (hd (selectors (bs ! i)))))"
    by (rule card_UN_disjoint[OF finite_toggles])
       (use finite_descendants siblings_disjoint[OF assms] in blast)+
  finally show ?thesis .
qed

lemma statusMarksRoots_nth:
  "statusMarksRoots bs \<Longrightarrow> b \<in> set bs \<Longrightarrow> (status b \<noteq> None) = (selectors b \<noteq> [])"
  by (simp add: statusMarksRoots_def list_all_iff)

lemma getDecendentsNumber_card:
  assumes "ranked rk bs" "distinct (rootIds bs)" "statusMarksRoots bs"
  shows "rk r < depth \<Longrightarrow> getDecendentsNumber depth bs r = Inr (card (descendants bs r))"
proof (induction depth arbitrary: r)
  case 0
  then show ?case by simp
next
  case (Suc depth)
  let ?g = "\<lambda>b. 1 + (if selectors b \<noteq> [] then card (descendants bs (hd (selectors b))) else 0)"
  have body: "(if status child \<noteq> None
         then (case selectors child of
                 [] \<Rightarrow> Inl TypeError
               | childId # _ \<Rightarrow>
                   (case getDecendentsNumber depth bs childId of
                      Inl e \<Rightarrow> Inl e
                    | Inr k \<Rightarrow> Inr (counter + k + 1)))
         else Inr (counter + 1)) = Inr (counter + ?g child)"
    if "child \<in> set (queryForeignKey bs r)" for child counter
  proof (cases "selectors child")
    case Nil
    with that statusMarksRoots_nth[OF assms(3), of child] show ?thesis
      by (simp add: queryForeignKey_def)
  next
    case (Cons c cs)
    from that have mem: "child \<in> set bs" "foreignKey child = Some r"
      by (simp_all add: queryForeignKey_def)
    with Cons have "(r, c) \<in> nested bs" unfolding nested_def by blast
    from ranked_nested[OF assms(1) this] Suc.prems have "rk c < depth" by simp
    from Suc.IH[OF this] Cons mem statusMarksRoots_nth[OF assms(3), of child] show ?thesis
      by simp
  qed
  have "getDecendentsNumber (Suc depth) bs r = Inr (0 + sum_list (map ?g (queryForeignKey bs r)))"
    unfolding getDecendentsNumber.simps by (rule forEach_sum) (rule body)
  also have "sum_list (map ?g (queryForeignKey bs r)) = (\<Sum>i \<in> direct bs r. ?g (bs ! i))"
    unfolding queryForeignKey_def direct_def by (rule sum_list_filter_nth)
  also have "\<dots> = card (direct bs r) + (\<Sum>i \<in> direct bs r.
       if selectors (bs ! i) \<noteq> [] then card (descendants bs (hd (selectors (bs ! i)))) else 0)"
    by (simp add: sum_Suc)
  also have "(\<Sum>i \<in> direct bs r.
       if selectors (bs ! i) \<noteq> [] then card (descendants bs (hd (selectors (bs ! i)))) else 0)
     = (\<Sum>i \<in> {i \<in> direct bs r. selectors (bs ! i) \<noteq> []}. card (descendants bs (hd (selectors (bs ! i)))))"
    by (rule sum.inter_filter[symmetric]) (rule finite_direct)
  also have "{i \<in> direct bs r. selectors (bs ! i) \<noteq> []} = toggles bs r"
    by (auto simp: direct_def toggles_def)
  finally show ?case using card_descendants[OF assms(1,2), of r] by simp
qed


text \<open>
  C1. In a well-formed document (acyclic nesting, unique root ids, the status attribute
  on exactly the toggle roots) and with stack to spare, \<^verbatim>\<open>getDecendentsNumber\<close> applied to a
  root id \<open>R\<close> returns the number of tagged blocks reachable from \<open>R\<close> through nested
  roots; every nested root among the blocks tagged \<open>R\<close> has its own count returned in the
  same way; the count of \<open>R\<close> is the sum, over the blocks tagged \<open>R\<close>, of one plus the
  count of the block's nested root if it is one; and it is zero when no block is tagged
  \<open>R\<close>.
\<close>

theorem getDecendentsNumber_counts_descendants:
  assumes "ranked rk bs" and "distinct (rootIds bs)" and "statusMarksRoots bs"
    and "rk R < depth"
  shows "getDecendentsNumber depth bs R = Inr (card (descendants bs R))
    \<and> (\<forall>b \<in> set (queryForeignKey bs R). status b \<noteq> None \<longrightarrow>
          getDecendentsNumber depth bs (hd (selectors b)) = Inr (card (descendants bs (hd (selectors b)))))
    \<and> card (descendants bs R) =
        (\<Sum>b\<leftarrow>queryForeignKey bs R.
            1 + (if status b \<noteq> None then card (descendants bs (hd (selectors b))) else 0))
    \<and> (queryForeignKey bs R = [] \<longrightarrow> getDecendentsNumber depth bs R = Inr 0)"
proof -
  have count: "getDecendentsNumber depth bs r = Inr (card (descendants bs r))" if "rk r < depth" for r
    using getDecendentsNumber_card[OF assms(1,2,3) that] .
  have nestedRoot: "getDecendentsNumber depth bs (hd (selectors b)) = Inr (card (descendants bs (hd (selectors b))))"
    if "b \<in> set (queryForeignKey bs R)" "status b \<noteq> None" for b
  proof -
    from that have mem: "b \<in> set bs" "foreignKey b = Some R" by (simp_all add: queryForeignKey_def)
    with that statusMarksRoots_nth[OF assms(3), of b] obtain c cs where c: "selectors b = c # cs"
      by (cases "selectors b") auto
    with mem have "(R, c) \<in> nested bs" unfolding nested_def by blast
    from ranked_nested[OF assms(1) this] assms(4) have "rk c < depth" by simp
    from count[OF this] c show ?thesis by simp
  qed
  have sum: "card (descendants bs R) =
        (\<Sum>b\<leftarrow>queryForeignKey bs R.
            1 + (if status b \<noteq> None then card (descendants bs (hd (selectors b))) else 0))"
  proof -
    let ?g = "\<lambda>b. 1 + (if status b \<noteq> None then card (descendants bs (hd (selectors b))) else 0)"
    have "sum_list (map ?g (queryForeignKey bs R)) = (\<Sum>i \<in> direct bs R. ?g (bs ! i))"
      unfolding queryForeignKey_def direct_def by (rule sum_list_filter_nth)
    also have "\<dots> = card (direct bs R) + (\<Sum>i \<in> direct bs R.
       if status (bs ! i) \<noteq> None then card (descendants bs (hd (selectors (bs ! i)))) else 0)"
      by (simp add: sum_Suc)
    also have "(\<Sum>i \<in> direct bs R.
       if status (bs ! i) \<noteq> None then card (descendants bs (hd (selectors (bs ! i)))) else 0)
     = (\<Sum>i \<in> {i \<in> direct bs R. status (bs ! i) \<noteq> None}. card (descendants bs (hd (selectors (bs ! i)))))"
      by (rule sum.inter_filter[symmetric]) (rule finite_direct)
    also have "{i \<in> direct bs R. status (bs ! i) \<noteq> None} = toggles bs R"
      using statusMarksRoots_nth[OF assms(3) nth_mem] by (auto simp: direct_def toggles_def)
    finally show ?thesis using card_descendants[OF assms(1,2), of R] by simp
  qed
  have empty: "getDecendentsNumber depth bs R = Inr 0" if "queryForeignKey bs R = []"
  proof -
    from assms(4) obtain d where "depth = Suc d" by (cases depth) auto
    with that show ?thesis by simp
  qed
  from count[OF assms(4)] nestedRoot sum empty show ?thesis by blast
qed

lemma scenarioB_wellformed:
  "ranked rankB scenarioB" "distinct (rootIds scenarioB)" "statusMarksRoots scenarioB"
  by (simp_all add: ranked_def rootIds_def statusMarksRoots_def scenarioB_def rankB_def
        toggleRoot_def plainBlock_def)

theorem getDecendentsNumber_counts_descendants_witness:
  "ranked rankB scenarioB \<and> distinct (rootIds scenarioB) \<and> statusMarksRoots scenarioB
   \<and> rankB ''R'' < 2
   \<and> getDecendentsNumber 2 scenarioB ''R'' = Inr 3
   \<and> card (descendants scenarioB ''R'') = 3
   \<and> getDecendentsNumber 2 scenarioB ''T'' = Inr 1"
proof -
  have r: "rankB ''R'' < 2" by (simp add: rankB_def)
  have e: "getDecendentsNumber 2 scenarioB ''R'' = Inr 3"
    by (simp add: numeral_2_eq_2 scenarioB_def queryForeignKey_def toggleRoot_def plainBlock_def)
  have t: "getDecendentsNumber 2 scenarioB ''T'' = Inr 1"
    by (simp add: numeral_2_eq_2 scenarioB_def queryForeignKey_def toggleRoot_def plainBlock_def)
  from getDecendentsNumber_counts_descendants[OF scenarioB_wellformed r] e
  have "card (descendants scenarioB ''R'') = 3" by simp
  with scenarioB_wellformed r e t show ?thesis by simp
qed


subsection \<open>The relocation loop\<close>

text \<open>
  C9. For every nonnegative children count \<open>N\<close> the relocation loop of
  \<^verbatim>\<open>moveDecendents\<close> terminates, and it issues exactly \<open>N\<close> move operations (and no other
  call): one per iteration, the count going down by one each time until it is zero.
\<close>

theorem moveDecendents_terminates_with_N_moves:
  assumes "0 \<le> N"
  shows "\<exists>s'. moveDecendents N finalIndex parentInitialIndex direction s = Some s'
           \<and> calls s' = calls s @ descendantMoves (nat N) finalIndex parentInitialIndex direction
           \<and> length (calls s') = length (calls s) + nat N
           \<and> (\<forall>c \<in> set (descendantMoves (nat N) finalIndex parentInitialIndex direction).
                 \<exists>t f. c = Move t f)"
proof -
  obtain s' where s': "moveDecendents (int (nat N)) finalIndex parentInitialIndex direction s = Some s'"
    "calls s' = calls s @ descendantMoves (nat N) finalIndex parentInitialIndex direction"
    using moveDecendents_nat by blast
  have all_moves: "\<forall>c \<in> set (descendantMoves n f p dir). \<exists>t f'. c = Move t f'" for n f p dir
    by (induction n arbitrary: f p) auto
  from s' assms show ?thesis
    by (auto simp: length_descendantMoves all_moves)
qed

theorem moveDecendents_terminates_with_N_moves_witness:
  "(0::int) \<le> 2
   \<and> (\<exists>s'. moveDecendents 2 1 3 0 (editorOf scenarioB ''R'' ''closed'') = Some s'
          \<and> calls s' = [Move 1 3, Move 2 4])"
proof -
  have h: "(0::int) \<le> 2" by simp
  from moveDecendents_terminates_with_N_moves[OF h, of 1 3 0 "editorOf scenarioB ''R'' ''closed''"]
  obtain s' where "moveDecendents 2 1 3 0 (editorOf scenarioB ''R'' ''closed'') = Some s'"
    "calls s' = [Move 1 3, Move 2 4]"
    by (auto simp: numeral_2_eq_2 editorOf_def)
  then show ?thesis by simp
qed

subsection \<open>The descendant test\<close>

lemma arraySome_exists:
  "(\<And>x. x \<in> set xs \<Longrightarrow> q x = Inr (P x)) \<Longrightarrow> arraySome q xs = Inr (\<exists>x \<in> set xs. P x)"
  by (induction xs) auto

lemma isChild_reaches:
  assumes "ranked rk bs" "[] \<notin> set (rootIds bs)" "t \<noteq> []"
  shows "rk p < depth \<Longrightarrow> p \<noteq> [] \<Longrightarrow> isChild depth bs (Some p) (Some t) = Inr ((p, t) \<in> (nested bs)\<^sup>*)"
proof (induction depth arbitrary: p)
  case 0
  then show ?case by simp
next
  case (Suc depth)
  show ?case
  proof (cases "p = t")
    case True
    with Suc.prems show ?thesis by simp
  next
    case False
    let ?q = "\<lambda>child. case selectors child of [] \<Rightarrow> Inr False
               | toggleId # _ \<Rightarrow> isChild depth bs (Some toggleId) (Some t)"
    let ?P = "\<lambda>child. selectors child \<noteq> [] \<and> (hd (selectors child), t) \<in> (nested bs)\<^sup>*"
    have q: "?q child = Inr (?P child)" if "child \<in> set (queryForeignKey bs p)" for child
    proof (cases "selectors child")
      case Nil
      then show ?thesis by simp
    next
      case (Cons c cs)
      from that have mem: "child \<in> set bs" "foreignKey child = Some p"
        by (simp_all add: queryForeignKey_def)
      with Cons have n: "(p, c) \<in> nested bs" unfolding nested_def by blast
      from ranked_nested[OF assms(1) n] Suc.prems have rk: "rk c < depth" by simp
      from mem Cons have "c \<in> set (rootIds bs)" unfolding rootIds_def by force
      with assms(2) have "c \<noteq> []" by auto
      from Suc.IH[OF rk this] Cons show ?thesis by simp
    qed
    have "isChild (Suc depth) bs (Some p) (Some t) = arraySome ?q (queryForeignKey bs p)"
      using False Suc.prems assms(3) by simp
    also have "\<dots> = Inr (\<exists>child \<in> set (queryForeignKey bs p). ?P child)"
      by (rule arraySome_exists) (rule q)
    also have "(\<exists>child \<in> set (queryForeignKey bs p). ?P child) \<longleftrightarrow> (p, t) \<in> (nested bs)\<^sup>*"
    proof
      assume "\<exists>child \<in> set (queryForeignKey bs p). ?P child"
      then obtain child where c: "child \<in> set bs" "foreignKey child = Some p"
        "selectors child \<noteq> []" "(hd (selectors child), t) \<in> (nested bs)\<^sup>*"
        by (auto simp: queryForeignKey_def)
      then obtain x xs where "selectors child = x # xs" by (cases "selectors child") auto
      with c have "(p, x) \<in> nested bs" "(x, t) \<in> (nested bs)\<^sup>*" unfolding nested_def by auto
      then show "(p, t) \<in> (nested bs)\<^sup>*" by (rule converse_rtrancl_into_rtrancl)
    next
      assume "(p, t) \<in> (nested bs)\<^sup>*"
      then show "\<exists>child \<in> set (queryForeignKey bs p). ?P child"
      proof (cases rule: converse_rtranclE)
        case base
        with False show ?thesis by simp
      next
        case (step c)
        from step(1) obtain b cs where "b \<in> set bs" "foreignKey b = Some p" "selectors b = c # cs"
          unfolding nested_def by blast
        with step(2) show ?thesis by (auto simp: queryForeignKey_def)
      qed
    qed
    finally show ?thesis .
  qed
qed


text \<open>
  C7. \<^verbatim>\<open>isChild\<close> is reflexive on every id (a non-empty string): \<open>isChild(R, R)\<close> is true.
  In a document whose nesting is acyclic and whose root ids are non-empty, and with stack
  to spare, \<open>isChild(A, B)\<close> for ids \<open>A\<close> and \<open>B\<close> is true exactly when \<open>A = B\<close> or some
  block tagged with \<open>A\<close> is a toggle root whose id passes the same test against \<open>B\<close>;
  that is, exactly when \<open>B\<close> is reachable from \<open>A\<close> through nested roots.
\<close>

theorem isChild_reflexive_and_reachability:
  "(R \<noteq> [] \<longrightarrow> isChild (Suc n) bs (Some R) (Some R) = Inr True)
   \<and> (ranked rk bs \<and> [] \<notin> set (rootIds bs) \<and> rk A < depth \<and> A \<noteq> [] \<and> B \<noteq> [] \<longrightarrow>
        isChild depth bs (Some A) (Some B) =
          Inr (A = B \<or> (\<exists>child \<in> set (queryForeignKey bs A). \<exists>c cs.
                 selectors child = c # cs \<and> isChild depth bs (Some c) (Some B) = Inr True))
        \<and> isChild depth bs (Some A) (Some B) = Inr ((A, B) \<in> (nested bs)\<^sup>*))"
proof (intro conjI impI)
  assume "R \<noteq> []"
  then show "isChild (Suc n) bs (Some R) (Some R) = Inr True" by simp
next
  assume h: "ranked rk bs \<and> [] \<notin> set (rootIds bs) \<and> rk A < depth \<and> A \<noteq> [] \<and> B \<noteq> []"
  then have r: "ranked rk bs" and ne: "[] \<notin> set (rootIds bs)" and d: "rk A < depth"
    and A: "A \<noteq> []" and B: "B \<noteq> []" by simp_all
  show reach: "isChild depth bs (Some A) (Some B) = Inr ((A, B) \<in> (nested bs)\<^sup>*)"
    by (rule isChild_reaches[OF r ne B d A])
  have below: "isChild depth bs (Some c) (Some B) = Inr ((c, B) \<in> (nested bs)\<^sup>*)"
    if "child \<in> set (queryForeignKey bs A)" "selectors child = c # cs" for child c cs
  proof -
    from that have mem: "child \<in> set bs" "foreignKey child = Some A"
      by (simp_all add: queryForeignKey_def)
    with that have n: "(A, c) \<in> nested bs" unfolding nested_def by blast
    from ranked_nested[OF r n] d have rk: "rk c < depth" by simp
    from mem that have "c \<in> set (rootIds bs)" unfolding rootIds_def by force
    with ne have "c \<noteq> []" by auto
    from isChild_reaches[OF r ne B rk this] show ?thesis .
  qed
  have "(A, B) \<in> (nested bs)\<^sup>* \<longleftrightarrow>
        (A = B \<or> (\<exists>child \<in> set (queryForeignKey bs A). \<exists>c cs.
                 selectors child = c # cs \<and> isChild depth bs (Some c) (Some B) = Inr True))"
  proof
    assume "(A, B) \<in> (nested bs)\<^sup>*"
    then show "A = B \<or> (\<exists>child \<in> set (queryForeignKey bs A). \<exists>c cs.
                 selectors child = c # cs \<and> isChild depth bs (Some c) (Some B) = Inr True)"
    proof (cases rule: converse_rtranclE)
      case base
      then show ?thesis by simp
    next
      case (step c)
      from step(1) obtain b cs where b: "b \<in> set bs" "foreignKey b = Some A" "selectors b = c # cs"
        unfolding nested_def by blast
      then have q: "b \<in> set (queryForeignKey bs A)" by (simp add: queryForeignKey_def)
      from below[OF q b(3)] step(2) have "isChild depth bs (Some c) (Some B) = Inr True" by simp
      with q b(3) show ?thesis by blast
    qed
  next
    assume "A = B \<or> (\<exists>child \<in> set (queryForeignKey bs A). \<exists>c cs.
                 selectors child = c # cs \<and> isChild depth bs (Some c) (Some B) = Inr True)"
    then show "(A, B) \<in> (nested bs)\<^sup>*"
    proof
      assume "A = B" then show ?thesis by simp
    next
      assume "\<exists>child \<in> set (queryForeignKey bs A). \<exists>c cs.
                 selectors child = c # cs \<and> isChild depth bs (Some c) (Some B) = Inr True"
      then obtain child c cs where c: "child \<in> set (queryForeignKey bs A)" "selectors child = c # cs"
        "isChild depth bs (Some c) (Some B) = Inr True" by blast
      from below[OF c(1,2)] c(3) have cb: "(c, B) \<in> (nested bs)\<^sup>*" by simp
      from c(1,2) have "(A, c) \<in> nested bs" unfolding nested_def queryForeignKey_def by auto
      from this cb show ?thesis by (rule converse_rtrancl_into_rtrancl)
    qed
  qed
  with reach show "isChild depth bs (Some A) (Some B) =
          Inr (A = B \<or> (\<exists>child \<in> set (queryForeignKey bs A). \<exists>c cs.
                 selectors child = c # cs \<and> isChild depth bs (Some c) (Some B) = Inr True))"
    by simp
qed

theorem isChild_reflexive_and_reachability_witness:
  "''R'' \<noteq> [] \<and> isChild (Suc 0) scenarioB (Some ''R'') (Some ''R'') = Inr True
   \<and> ranked rankB scenarioB \<and> [] \<notin> set (rootIds scenarioB) \<and> rankB ''R'' < 2
   \<and> ''T'' \<noteq> []
   \<and> isChild 2 scenarioB (Some ''R'') (Some ''T'') = Inr True
   \<and> (''R'', ''T'') \<in> (nested scenarioB)\<^sup>*
   \<and> isChild 2 scenarioB (Some ''T'') (Some ''R'') = Inr False"
proof -
  have ne: "[] \<notin> set (rootIds scenarioB)"
    by (simp add: rootIds_def scenarioB_def toggleRoot_def plainBlock_def)
  have rk: "rankB ''R'' < 2" by (simp add: rankB_def)
  have e: "isChild 2 scenarioB (Some ''R'') (Some ''T'') = Inr True"
    by (simp add: numeral_2_eq_2 scenarioB_def queryForeignKey_def toggleRoot_def plainBlock_def)
  have f: "isChild 2 scenarioB (Some ''T'') (Some ''R'') = Inr False"
    by (simp add: numeral_2_eq_2 scenarioB_def queryForeignKey_def toggleRoot_def plainBlock_def)
  from isChild_reflexive_and_reachability[where R="''R''" and n=0 and bs=scenarioB and rk=rankB
      and A="''R''" and depth=2 and B="''T''"]
    scenarioB_wellformed(1) ne rk e
  have "isChild (Suc 0) scenarioB (Some ''R'') (Some ''R'') = Inr True"
    "(''R'', ''T'') \<in> (nested scenarioB)\<^sup>*" by simp_all
  with scenarioB_wellformed(1) ne rk e f show ?thesis by simp
qed

text \<open>
  C10. \<^verbatim>\<open>isChild\<close> answers false as soon as one of its arguments is absent (null,
  undefined or the empty string), whatever the document holds: a drop target with no
  parent link is not inside the dragged toggle's subtree, and a toggle with no id is the
  ancestor of nothing.
\<close>

theorem isChild_absent_argument:
  assumes "absent parentID \<or> absent targetFK"
  shows "isChild (Suc depth) bs parentID targetFK = Inr False"
  using assms by (auto simp: absent_def split: option.splits)

theorem isChild_absent_argument_witness:
  "(absent (Some ''R'') \<or> absent None)
   \<and> isChild (Suc 0) scenarioB (Some ''R'') None = Inr False
   \<and> (absent (Some []) \<or> absent (Some ''T''))
   \<and> isChild (Suc 0) scenarioB (Some []) (Some ''T'') = Inr False"
proof -
  have a: "absent (Some ''R'') \<or> absent None" by (simp add: absent_def)
  have b: "absent (Some []) \<or> absent (Some ''T'')" by (simp add: absent_def)
  from isChild_absent_argument[OF a, of 0 scenarioB] isChild_absent_argument[OF b, of 0 scenarioB] a b
  show ?thesis by simp
qed


subsection \<open>Visibility propagation\<close>

lemma skeleton_length: "skeleton a = skeleton b \<Longrightarrow> length a = length b"
  unfolding skeleton_def by (rule map_eq_imp_length_eq)

lemma skeleton_nth:
  assumes "skeleton a = skeleton b" "i < length a"
  shows "(a ! i)\<lparr>hidden := False\<rparr> = (b ! i)\<lparr>hidden := False\<rparr>"
proof -
  have "skeleton a ! i = skeleton b ! i" using assms(1) by simp
  with assms(2) skeleton_length[OF assms(1)] show ?thesis by (simp add: skeleton_def)
qed

lemma skeleton_fields:
  assumes "skeleton a = skeleton b" "i < length a"
  shows "foreignKey (a ! i) = foreignKey (b ! i)" "selectors (a ! i) = selectors (b ! i)"
    "status (a ! i) = status (b ! i)"
proof -
  note e = skeleton_nth[OF assms]
  from arg_cong[OF e, of foreignKey] show "foreignKey (a ! i) = foreignKey (b ! i)" by simp
  from arg_cong[OF e, of selectors] show "selectors (a ! i) = selectors (b ! i)" by simp
  from arg_cong[OF e, of status] show "status (a ! i) = status (b ! i)" by simp
qed

lemma skeleton_only_hidden:
  assumes "skeleton a = skeleton b" "i < length a"
  shows "a ! i = (b ! i)\<lparr>hidden := hidden (a ! i)\<rparr>"
proof -
  from skeleton_nth[OF assms] have "(a ! i)\<lparr>hidden := False\<rparr> = (b ! i)\<lparr>hidden := False\<rparr>" .
  then show ?thesis by (cases "a ! i", cases "b ! i") simp
qed

lemma skeleton_update:
  "i < length bs \<Longrightarrow> skeleton (bs[i := (bs ! i)\<lparr>hidden := h\<rparr>]) = skeleton bs"
  by (simp add: skeleton_def map_update list_update_same_conv)

lemma skeleton_query:
  assumes "skeleton a = skeleton b"
  shows "queryForeignKeyAt a fk = queryForeignKeyAt b fk"
proof -
  have "filter (\<lambda>i. foreignKey (a ! i) = Some fk) [0..<length a]
      = filter (\<lambda>i. foreignKey (b ! i) = Some fk) [0..<length a]"
    by (rule filter_cong) (simp_all add: skeleton_fields(1)[OF assms])
  with skeleton_length[OF assms] show ?thesis by (simp add: queryForeignKeyAt_def)
qed

lemma forEach_invariant_aux:
  assumes step: "\<And>pre x post s. xs = pre @ x # post \<Longrightarrow> I pre s \<Longrightarrow> \<exists>s'. f x s = Inr s' \<and> I (pre @ [x]) s'"
  shows "xs = pre @ rest \<Longrightarrow> I pre s \<Longrightarrow> \<exists>s'. forEach f rest s = Inr s' \<and> I xs s'"
proof (induction rest arbitrary: pre s)
  case Nil
  then show ?case by simp
next
  case (Cons x rest)
  from step[OF Cons.prems(1) Cons.prems(2)] obtain s1 where s1: "f x s = Inr s1" "I (pre @ [x]) s1"
    by blast
  from Cons.prems(1) have "xs = (pre @ [x]) @ rest" by simp
  from Cons.IH[OF this s1(2)] s1(1) show ?case by simp
qed

lemma forEach_invariant:
  assumes "I [] s"
    and "\<And>pre x post s. xs = pre @ x # post \<Longrightarrow> I pre s \<Longrightarrow> \<exists>s'. f x s = Inr s' \<and> I (pre @ [x]) s'"
  shows "\<exists>s'. forEach f xs s = Inr s' \<and> I xs s'"
  using forEach_invariant_aux[of xs I f "[]" xs s] assms by simp

lemma set_queryForeignKeyAt: "set (queryForeignKeyAt bs fk) = direct bs fk"
  by (auto simp: queryForeignKeyAt_def direct_def)

lemma distinct_queryForeignKeyAt: "distinct (queryForeignKeyAt bs fk)"
  by (simp add: queryForeignKeyAt_def)

lemma direct_subset_descendants: "direct bs r \<subseteq> descendants bs r"
  by (auto simp: direct_def descendants_def)

lemma toggles_subset_direct: "toggles bs r \<subseteq> direct bs r"
  by (auto simp: direct_def toggles_def)

lemma toggles_rank:
  "ranked rk bs \<Longrightarrow> t \<in> toggles bs r \<Longrightarrow> rk (hd (selectors (bs ! t))) < rk r"
  by (rule ranked_nested[OF _ toggles_nested])


lemma descendants_below:
  assumes "u \<in> descendants bs a" "selectors (bs ! u) \<noteq> []"
    and "i \<in> descendants bs (hd (selectors (bs ! u)))"
  shows "i \<in> descendants bs a"
proof -
  from assms(1) obtain p where p: "u < length bs" "(a, p) \<in> (nested bs)\<^sup>*"
    "foreignKey (bs ! u) = Some p" by (auto simp: descendants_def)
  from p(1,3) assms(2) have "u \<in> toggles bs p" by (simp add: toggles_def)
  from toggles_nested[OF this] have st: "(p, hd (selectors (bs ! u))) \<in> nested bs" .
  from assms(3) obtain q where q: "i < length bs" "(hd (selectors (bs ! u)), q) \<in> (nested bs)\<^sup>*"
    "foreignKey (bs ! i) = Some q" by (auto simp: descendants_def)
  from p(2) st have "(a, hd (selectors (bs ! u))) \<in> (nested bs)\<^sup>*"
    by (rule rtrancl_into_rtrancl)
  from this q(2) have "(a, q) \<in> (nested bs)\<^sup>*" by (rule rtrancl_trans)
  with q(1,3) show ?thesis by (auto simp: descendants_def)
qed

lemma direct_not_shut:
  assumes "ranked rk bs"
  shows "direct bs r \<inter> shut bs r = {}"
proof (rule ccontr)
  assume "\<not> ?thesis"
  then obtain k u where k: "k \<in> direct bs r" and u: "u \<in> descendants bs r"
    "selectors (bs ! u) \<noteq> []" "k \<in> descendants bs (hd (selectors (bs ! u)))"
    by (auto simp: shut_def)
  let ?y = "hd (selectors (bs ! u))"
  from u(1) obtain p where p: "u < length bs" "(r, p) \<in> (nested bs)\<^sup>*"
    "foreignKey (bs ! u) = Some p" by (auto simp: descendants_def)
  from p(1,3) u(2) have "u \<in> toggles bs p" by (simp add: toggles_def)
  from ranked_nested[OF assms toggles_nested[OF this]] have 1: "rk ?y < rk p" .
  from ranked_rtrancl[OF assms p(2)] have 2: "rk p \<le> rk r" .
  from k u(3) have "(?y, r) \<in> (nested bs)\<^sup>*" by (auto simp: direct_def descendants_def)
  from ranked_rtrancl[OF assms this] 1 2 show False by simp
qed

lemma shut_step:
  assumes rk: "ranked rk bs" and dist: "distinct (rootIds bs)"
    and t: "t \<in> toggles bs r" and i: "i \<in> descendants bs (hd (selectors (bs ! t)))"
  shows "i \<in> shut bs r \<longleftrightarrow>
           status (bs ! t) = Some ''closed'' \<or> i \<in> shut bs (hd (selectors (bs ! t)))"
proof
  assume "i \<in> shut bs r"
  then obtain u where u: "u \<in> descendants bs r" "selectors (bs ! u) \<noteq> []"
    "status (bs ! u) = Some ''closed''" "i \<in> descendants bs (hd (selectors (bs ! u)))"
    by (auto simp: shut_def)
  from u(1) descendants_unfold[of bs r]
  consider "u \<in> direct bs r" | t' where "t' \<in> toggles bs r"
      "u \<in> descendants bs (hd (selectors (bs ! t')))" by blast
  then show "status (bs ! t) = Some ''closed'' \<or> i \<in> shut bs (hd (selectors (bs ! t)))"
  proof cases
    case 1
    with u(2) have ut: "u \<in> toggles bs r" by (simp add: direct_def toggles_def)
    have "u = t"
    proof (rule ccontr)
      assume "u \<noteq> t"
      from siblings_disjoint[OF rk dist ut t this] u(4) i show False by blast
    qed
    with u(3) show ?thesis by simp
  next
    case 2
    from descendants_below[OF 2(2) u(2) u(4)]
    have i': "i \<in> descendants bs (hd (selectors (bs ! t')))" .
    have "t' = t"
    proof (rule ccontr)
      assume "t' \<noteq> t"
      from siblings_disjoint[OF rk dist 2(1) t this] i' i show False by blast
    qed
    with 2(2) u(2,3,4) have "i \<in> shut bs (hd (selectors (bs ! t)))"
      unfolding shut_def by blast
    then show ?thesis by simp
  qed
next
  have td: "t \<in> descendants bs r" and ts: "selectors (bs ! t) \<noteq> []"
    using t by (auto simp: toggles_def descendants_def)
  assume "status (bs ! t) = Some ''closed'' \<or> i \<in> shut bs (hd (selectors (bs ! t)))"
  then show "i \<in> shut bs r"
  proof
    assume "status (bs ! t) = Some ''closed''"
    with td ts i show ?thesis unfolding shut_def by blast
  next
    assume "i \<in> shut bs (hd (selectors (bs ! t)))"
    then obtain u where u: "u \<in> descendants bs (hd (selectors (bs ! t)))"
      "selectors (bs ! u) \<noteq> []" "status (bs ! u) = Some ''closed''"
      "i \<in> descendants bs (hd (selectors (bs ! u)))"
      by (auto simp: shut_def)
    from descendants_below[OF td ts u(1)] have "u \<in> descendants bs r" .
    with u(2,3,4) show ?thesis unfolding shut_def by blast
  qed
qed

lemma hideAndShowBlocks_main:
  fixes bs0 :: "block list"
  assumes rk: "ranked rk bs0" and dist: "distinct (rootIds bs0)"
  shows "skeleton (blocks s) = skeleton bs0 \<Longrightarrow> rk X < depth \<Longrightarrow>
     \<exists>s'. hideAndShowBlocks depth X v s = Inr s'
        \<and> skeleton (blocks s') = skeleton bs0
        \<and> (\<forall>i. i \<notin> descendants bs0 X \<longrightarrow> blocks s' ! i = blocks s ! i)
        \<and> (\<forall>i\<in>descendants bs0 X.
              hidden (blocks s' ! i) = (v = Some ''closed'' \<or> i \<in> shut bs0 X))"
proof (induction depth arbitrary: X v s)
  case 0
  then show ?case by simp
next
  case (Suc depth)
  define xs where "xs = queryForeignKeyAt bs0 X"
  define T where "T = toggles bs0 X"
  define R where "R t = hd (selectors (bs0 ! t))" for t
  define D where "D t = descendants bs0 (R t)" for t
  define cl where "cl \<longleftrightarrow> v = Some ''closed''"
  define vt where "vt t = (if v = Some ''closed'' then v else status (bs0 ! t))" for t
  define I where "I pre \<sigma> \<longleftrightarrow> skeleton (blocks \<sigma>) = skeleton bs0
       \<and> (\<forall>i. i \<notin> set pre \<and> (\<forall>t\<in>set pre \<inter> T. i \<notin> D t) \<longrightarrow> blocks \<sigma> ! i = blocks s ! i)
       \<and> (\<forall>c\<in>set pre. hidden (blocks \<sigma> ! c) = cl)
       \<and> (\<forall>t\<in>set pre \<inter> T. \<forall>i\<in>D t.
             hidden (blocks \<sigma> ! i) = (vt t = Some ''closed'' \<or> i \<in> shut bs0 (R t)))"
    for pre and \<sigma> :: state
  define f where "f = (\<lambda>child (s::state).
                  let s1 = setHidden child (v = Some ''closed'') s
                  in case selectors (blocks s1 ! child) of
                       [] \<Rightarrow> Inr s1
                     | toggleId # _ \<Rightarrow>
                         (let childValue = (if v = Some ''closed'' then v
                                            else status (blocks s1 ! child))
                          in hideAndShowBlocks depth toggleId childValue s1))"
  have q: "queryForeignKeyAt (blocks s) X = xs"
    unfolding xs_def by (rule skeleton_query[OF Suc.prems(1)])
  have set_xs: "set xs = direct bs0 X" unfolding xs_def by (rule set_queryForeignKeyAt)
  have F1: "i \<notin> direct bs0 X" if "t \<in> T" "i \<in> D t" for t i
    using direct_not_below[OF rk, of t X] that unfolding T_def D_def R_def by blast
  have F2: "i \<notin> D t'" if "t \<in> T" "t' \<in> T" "t \<noteq> t'" "i \<in> D t" for t t' i
    using siblings_disjoint[OF rk dist, of t X t'] that unfolding T_def D_def R_def by blast
  have I0: "I [] s" using Suc.prems(1) by (simp add: I_def)
  have step: "\<exists>s'. f x \<sigma> = Inr s' \<and> I (pre @ [x]) s'"
    if xs: "xs = pre @ x # post" and inv: "I pre \<sigma>" for pre x post \<sigma>
  proof -
    from inv have sk: "skeleton (blocks \<sigma>) = skeleton bs0"
      and fr: "\<And>i. i \<notin> set pre \<Longrightarrow> (\<And>t. t \<in> set pre \<Longrightarrow> t \<in> T \<Longrightarrow> i \<notin> D t) \<Longrightarrow> blocks \<sigma> ! i = blocks s ! i"
      and ic: "\<And>c. c \<in> set pre \<Longrightarrow> hidden (blocks \<sigma> ! c) = cl"
      and id: "\<And>t i. t \<in> set pre \<Longrightarrow> t \<in> T \<Longrightarrow> i \<in> D t
                 \<Longrightarrow> hidden (blocks \<sigma> ! i) = (vt t = Some ''closed'' \<or> i \<in> shut bs0 (R t))"
      unfolding I_def by blast+
    have "distinct xs" unfolding xs_def by (rule distinct_queryForeignKeyAt)
    with xs have xpre: "x \<notin> set pre" by simp
    from xs set_xs have xdir: "x \<in> direct bs0 X" and predir: "set pre \<subseteq> direct bs0 X" by auto
    from xdir have xlen0: "x < length bs0" by (simp add: direct_def)
    with skeleton_length[OF sk] have xlen: "x < length (blocks \<sigma>)" by simp
    define \<sigma>1 where "\<sigma>1 = setHidden x (v = Some ''closed'') \<sigma>"
    have b1: "blocks \<sigma>1 = (blocks \<sigma>)[x := (blocks \<sigma> ! x)\<lparr>hidden := cl\<rparr>]"
      by (simp add: \<sigma>1_def setHidden_def cl_def)
    have sk1: "skeleton (blocks \<sigma>1) = skeleton bs0"
      unfolding b1 using skeleton_update[OF xlen] sk by simp
    have other: "blocks \<sigma>1 ! i = blocks \<sigma> ! i" if "i \<noteq> x" for i
      unfolding b1 using that by simp
    have self: "hidden (blocks \<sigma>1 ! x) = cl" unfolding b1 using xlen by simp
    have xlen1: "x < length (blocks \<sigma>1)" unfolding b1 using xlen by simp
    note fld = skeleton_fields[OF sk1 xlen1]
    have notD: "i \<noteq> x" if "t \<in> T" "i \<in> D t" for t i
      using F1[OF that] xdir by auto
    show ?thesis
    proof (cases "selectors (bs0 ! x)")
      case Nil
      then have xT: "x \<notin> T" by (simp add: T_def toggles_def)
      have res: "f x \<sigma> = Inr \<sigma>1"
        unfolding f_def using Nil fld(2) by (simp add: Let_def \<sigma>1_def)
      have "I (pre @ [x]) \<sigma>1"
        unfolding I_def
      proof (intro conjI allI impI ballI)
        show "skeleton (blocks \<sigma>1) = skeleton bs0" by (rule sk1)
      next
        fix i assume a: "i \<notin> set (pre @ [x]) \<and> (\<forall>t\<in>set (pre @ [x]) \<inter> T. i \<notin> D t)"
        then have "i \<noteq> x" "i \<notin> set pre" by simp_all
        moreover from a have "\<And>t. t \<in> set pre \<Longrightarrow> t \<in> T \<Longrightarrow> i \<notin> D t" by simp
        ultimately show "blocks \<sigma>1 ! i = blocks s ! i" using other fr by simp
      next
        fix c assume "c \<in> set (pre @ [x])"
        then show "hidden (blocks \<sigma>1 ! c) = cl"
          using self ic other xpre by (cases "c = x") auto
      next
        fix t i assume "t \<in> set (pre @ [x]) \<inter> T" "i \<in> D t"
        with xT have t: "t \<in> set pre" "t \<in> T" by auto
        from notD[OF t(2) \<open>i \<in> D t\<close>] other id[OF t \<open>i \<in> D t\<close>]
        show "hidden (blocks \<sigma>1 ! i) = (vt t = Some ''closed'' \<or> i \<in> shut bs0 (R t))" by simp
      qed
      with res show ?thesis by blast
    next
      case (Cons y ys)
      then have xT: "x \<in> T" using xdir by (simp add: T_def toggles_def direct_def)
      have Rx: "R x = y" using Cons by (simp add: R_def)
      from toggles_rank[OF rk xT[unfolded T_def]] Cons Suc.prems(2) have rky: "rk y < depth" by simp
      from Suc.IH[OF sk1 rky, of "vt x"] obtain s' where
        r: "hideAndShowBlocks depth y (vt x) \<sigma>1 = Inr s'"
        and sk': "skeleton (blocks s') = skeleton bs0"
        and fr': "\<And>i. i \<notin> descendants bs0 y \<Longrightarrow> blocks s' ! i = blocks \<sigma>1 ! i"
        and d': "\<And>i. i \<in> descendants bs0 y
                  \<Longrightarrow> hidden (blocks s' ! i) = (vt x = Some ''closed'' \<or> i \<in> shut bs0 y)"
        by blast
      have Dx: "D x = descendants bs0 y" by (simp add: D_def Rx)
      have "f x \<sigma> = (case selectors (blocks \<sigma>1 ! x) of
                       [] \<Rightarrow> Inr \<sigma>1
                     | toggleId # _ \<Rightarrow>
                         hideAndShowBlocks depth toggleId
                           (if v = Some ''closed'' then v else status (blocks \<sigma>1 ! x)) \<sigma>1)"
        unfolding f_def \<sigma>1_def Let_def ..
      also have "\<dots> = hideAndShowBlocks depth y (vt x) \<sigma>1"
        using Cons fld(2,3) by (simp add: vt_def)
      finally have res: "f x \<sigma> = Inr s'" using r by simp
      have keep: "blocks s' ! i = blocks \<sigma> ! i" if "i \<noteq> x" "i \<notin> D x" for i
        using fr'[of i] other[of i] that Dx by simp
      have xself: "x \<notin> D x" using F1[OF xT, of x] xdir by auto
      have "I (pre @ [x]) s'"
        unfolding I_def
      proof (intro conjI allI impI ballI)
        show "skeleton (blocks s') = skeleton bs0" by (rule sk')
      next
        fix i assume a: "i \<notin> set (pre @ [x]) \<and> (\<forall>t\<in>set (pre @ [x]) \<inter> T. i \<notin> D t)"
        then have i: "i \<noteq> x" "i \<notin> set pre" by simp_all
        from a xT have "i \<notin> D x" by simp
        moreover from a have "\<And>t. t \<in> set pre \<Longrightarrow> t \<in> T \<Longrightarrow> i \<notin> D t" by simp
        ultimately show "blocks s' ! i = blocks s ! i" using keep[of i] fr[of i] i by simp
      next
        fix c assume c: "c \<in> set (pre @ [x])"
        show "hidden (blocks s' ! c) = cl"
        proof (cases "c = x")
          case True
          from fr'[of x] xself Dx have "blocks s' ! x = blocks \<sigma>1 ! x" by simp
          with self True show ?thesis by simp
        next
          case False
          with c have cp: "c \<in> set pre" by simp
          with predir have "c \<in> direct bs0 X" by auto
          with F1[OF xT, of c] have "c \<notin> D x" by auto
          from keep[OF False this] ic[OF cp] show ?thesis by simp
        qed
      next
        fix t i assume t: "t \<in> set (pre @ [x]) \<inter> T" and i: "i \<in> D t"
        show "hidden (blocks s' ! i) = (vt t = Some ''closed'' \<or> i \<in> shut bs0 (R t))"
        proof (cases "t = x")
          case True
          with i Dx have "i \<in> descendants bs0 y" by simp
          from d'[OF this] True Rx show ?thesis by simp
        next
          case False
          with t have tp: "t \<in> set pre" "t \<in> T" by auto
          from F2[OF tp(2) xT False i] have "i \<notin> D x" .
          from keep[OF notD[OF tp(2) i] this] id[OF tp i] show ?thesis by simp
        qed
      qed
      with res show ?thesis by blast
    qed
  qed
  have "\<exists>s'. forEach f xs s = Inr s' \<and> I xs s'"
  proof (rule forEach_invariant[of I s xs f])
    show "I [] s" by (rule I0)
  next
    fix pre x post \<sigma>
    assume "xs = pre @ x # post" "I pre \<sigma>"
    then show "\<exists>s'. f x \<sigma> = Inr s' \<and> I (pre @ [x]) s'" by (rule step)
  qed
  then obtain s' where s': "forEach f xs s = Inr s'" "I xs s'" by blast
  show ?case
  proof (cases "xs = []")
    case True
    with set_xs have d0: "direct bs0 X = {}" by simp
    with toggles_subset_direct[of bs0 X] have t0: "toggles bs0 X = {}" by blast
    have desc0: "descendants bs0 X = {}" by (subst descendants_unfold) (simp add: d0 t0)
    define s'' where "s'' = (if X = wrapperId s then s\<lparr>defaultContentHidden := truthy v\<rparr> else s)"
    have "hideAndShowBlocks (Suc depth) X v s = Inr s''"
      using True q by (simp add: s''_def)
    moreover have "blocks s'' = blocks s" by (simp add: s''_def)
    ultimately show ?thesis using Suc.prems(1) desc0 by simp
  next
    case False
    then have run: "hideAndShowBlocks (Suc depth) X v s = Inr s'"
      using q s'(1) by (simp add: f_def)
    from s'(2) have sk: "skeleton (blocks s') = skeleton bs0"
      and fr: "\<And>i. i \<notin> set xs \<Longrightarrow> (\<And>t. t \<in> set xs \<Longrightarrow> t \<in> T \<Longrightarrow> i \<notin> D t) \<Longrightarrow> blocks s' ! i = blocks s ! i"
      and ic: "\<And>c. c \<in> set xs \<Longrightarrow> hidden (blocks s' ! c) = cl"
      and id: "\<And>t i. t \<in> set xs \<Longrightarrow> t \<in> T \<Longrightarrow> i \<in> D t
                 \<Longrightarrow> hidden (blocks s' ! i) = (vt t = Some ''closed'' \<or> i \<in> shut bs0 (R t))"
      unfolding I_def by blast+
    have Tsub: "t \<in> set xs" if "t \<in> T" for t
      using that toggles_subset_direct[of bs0 X] set_xs by (auto simp: T_def)
    have unf: "descendants bs0 X = direct bs0 X \<union> (\<Union>t\<in>T. D t)"
      unfolding T_def D_def R_def by (rule descendants_unfold)
    have A: "\<forall>i. i \<notin> descendants bs0 X \<longrightarrow> blocks s' ! i = blocks s ! i"
    proof (intro allI impI)
      fix i assume "i \<notin> descendants bs0 X"
      with unf set_xs have "i \<notin> set xs" "\<And>t. t \<in> T \<Longrightarrow> i \<notin> D t" by auto
      then show "blocks s' ! i = blocks s ! i" using fr[of i] by simp
    qed
    have F: "\<forall>i\<in>descendants bs0 X.
               hidden (blocks s' ! i) = (v = Some ''closed'' \<or> i \<in> shut bs0 X)"
    proof (intro ballI)
      fix i assume i: "i \<in> descendants bs0 X"
      from i unf consider "i \<in> direct bs0 X" | t where "t \<in> T" "i \<in> D t" by blast
      then show "hidden (blocks s' ! i) = (v = Some ''closed'' \<or> i \<in> shut bs0 X)"
      proof cases
        case 1
        with direct_not_shut[OF rk, of X] have "i \<notin> shut bs0 X" by blast
        with ic[of i] set_xs 1 show ?thesis by (simp add: cl_def)
      next
        case 2
        from 2 have t: "t \<in> toggles bs0 X" and it: "i \<in> descendants bs0 (hd (selectors (bs0 ! t)))"
          by (simp_all add: T_def D_def R_def)
        note st = shut_step[OF rk dist t it]
        from id[OF Tsub[OF 2(1)] 2] have
          h: "hidden (blocks s' ! i) = (vt t = Some ''closed'' \<or> i \<in> shut bs0 (R t))" .
        show ?thesis
        proof (cases "v = Some ''closed''")
          case True
          with h show ?thesis by (simp add: vt_def)
        next
          case False
          with h st show ?thesis by (simp add: vt_def R_def)
        qed
      qed
    qed
    from run sk A F show ?thesis by blast
  qed
qed


text \<open>
  C3. In a document with acyclic nesting and unique root ids, and with stack to spare,
  \<^verbatim>\<open>hideAndShowBlocks\<close> applied to a root id \<open>R\<close> returns, changes nothing but
  \<^verbatim>\<open>hidden\<close> flags (so no stored status), and leaves every block outside the descendants
  of \<open>R\<close> as it was. It settles the flag of every descendant of \<open>R\<close>, at any depth: the
  descendant ends hidden exactly when the value passed is \<^verbatim>\<open>'closed'\<close>, or some toggle
  nested between \<open>R\<close> and the descendant has the stored status \<^verbatim>\<open>'closed'\<close>. So with
  \<^verbatim>\<open>'closed'\<close> every descendant of \<open>R\<close> ends hidden, whatever the nested toggles' stored
  statuses are; with any other value (\<^verbatim>\<open>'open'\<close>) every block tagged \<open>R\<close> ends visible,
  and the blocks tagged with a nested toggle among them end hidden exactly when that nested
  toggle's own stored status is \<^verbatim>\<open>'closed'\<close>.
\<close>

theorem hideAndShowBlocks_propagates:
  assumes "ranked rk (blocks s)" and "distinct (rootIds (blocks s))" and "rk R < depth"
  shows "\<exists>s'. hideAndShowBlocks depth R v s = Inr s'
     \<and> length (blocks s') = length (blocks s)
     \<and> (\<forall>i<length (blocks s).
           blocks s' ! i = (blocks s ! i)\<lparr>hidden := hidden (blocks s' ! i)\<rparr>
           \<and> status (blocks s' ! i) = status (blocks s ! i))
     \<and> (\<forall>i. i \<notin> descendants (blocks s) R \<longrightarrow> blocks s' ! i = blocks s ! i)
     \<and> (\<forall>i\<in>descendants (blocks s) R.
           hidden (blocks s' ! i) = (v = Some ''closed'' \<or> i \<in> shut (blocks s) R))
     \<and> (v = Some ''closed'' \<longrightarrow> (\<forall>i\<in>descendants (blocks s) R. hidden (blocks s' ! i)))
     \<and> (v \<noteq> Some ''closed'' \<longrightarrow>
           (\<forall>i\<in>direct (blocks s) R. \<not> hidden (blocks s' ! i))
           \<and> (\<forall>t\<in>toggles (blocks s) R. \<forall>j\<in>direct (blocks s) (hd (selectors (blocks s ! t))).
                 hidden (blocks s' ! j) = (status (blocks s ! t) = Some ''closed'')))"
proof -
  from hideAndShowBlocks_main[OF assms(1,2) refl assms(3), of v] obtain s' where
    run: "hideAndShowBlocks depth R v s = Inr s'"
    and sk: "skeleton (blocks s') = skeleton (blocks s)"
    and fr: "\<forall>i. i \<notin> descendants (blocks s) R \<longrightarrow> blocks s' ! i = blocks s ! i"
    and al: "\<forall>i\<in>descendants (blocks s) R.
               hidden (blocks s' ! i) = (v = Some ''closed'' \<or> i \<in> shut (blocks s) R)"
    by blast
  have len: "length (blocks s') = length (blocks s)" by (rule skeleton_length[OF sk])
  have only: "\<forall>i<length (blocks s).
           blocks s' ! i = (blocks s ! i)\<lparr>hidden := hidden (blocks s' ! i)\<rparr>
           \<and> status (blocks s' ! i) = status (blocks s ! i)"
    using skeleton_only_hidden[OF sk] skeleton_fields(3)[OF sk] len by simp
  have cl: "v = Some ''closed'' \<longrightarrow> (\<forall>i\<in>descendants (blocks s) R. hidden (blocks s' ! i))"
    using al by simp
  have op: "v \<noteq> Some ''closed'' \<longrightarrow>
           (\<forall>i\<in>direct (blocks s) R. \<not> hidden (blocks s' ! i))
           \<and> (\<forall>t\<in>toggles (blocks s) R. \<forall>j\<in>direct (blocks s) (hd (selectors (blocks s ! t))).
                 hidden (blocks s' ! j) = (status (blocks s ! t) = Some ''closed''))"
  proof (intro impI conjI ballI)
    fix i assume v: "v \<noteq> Some ''closed''" and i: "i \<in> direct (blocks s) R"
    from i direct_not_shut[OF assms(1), of R] have "i \<notin> shut (blocks s) R" by blast
    moreover from i direct_subset_descendants have "i \<in> descendants (blocks s) R" by blast
    ultimately show "\<not> hidden (blocks s' ! i)" using al v by simp
  next
    fix t j assume v: "v \<noteq> Some ''closed''" and t: "t \<in> toggles (blocks s) R"
      and j: "j \<in> direct (blocks s) (hd (selectors (blocks s ! t)))"
    let ?y = "hd (selectors (blocks s ! t))"
    from j direct_subset_descendants have jy: "j \<in> descendants (blocks s) ?y" by blast
    with t descendants_unfold[of "blocks s" R] have jR: "j \<in> descendants (blocks s) R" by blast
    from j direct_not_shut[OF assms(1), of ?y] have "j \<notin> shut (blocks s) ?y" by blast
    with shut_step[OF assms(1,2) t jy]
    have "j \<in> shut (blocks s) R \<longleftrightarrow> status (blocks s ! t) = Some ''closed''" by simp
    with al jR v show "hidden (blocks s' ! j) = (status (blocks s ! t) = Some ''closed'')" by simp
  qed
  from run len only fr al cl op show ?thesis by blast
qed


theorem hideAndShowBlocks_propagates_witness:
  "ranked rankB (blocks (editorOf scenarioB ''R'' ''closed''))
   \<and> distinct (rootIds (blocks (editorOf scenarioB ''R'' ''closed'')))
   \<and> rankB ''R'' < 2
   \<and> (\<exists>s'. hideAndShowBlocks 2 ''R'' (Some ''closed'') (editorOf scenarioB ''R'' ''closed'') = Inr s'
         \<and> length (blocks s') = 4
         \<and> map hidden (blocks s') = [False, True, True, True]
         \<and> map status (blocks s') = [Some ''closed'', None, Some ''open'', None])
   \<and> (\<exists>s'. hideAndShowBlocks 2 ''R'' (Some ''open'') (editorOf scenarioB ''R'' ''closed'') = Inr s'
         \<and> length (blocks s') = 4
         \<and> map hidden (blocks s') = [False, False, False, False])
   \<and> ranked rankDeep (blocks (editorOf deepDoc ''R'' ''open''))
   \<and> distinct (rootIds (blocks (editorOf deepDoc ''R'' ''open'')))
   \<and> rankDeep ''R'' < 3
   \<and> (\<exists>s'. hideAndShowBlocks 3 ''R'' (Some ''open'') (editorOf deepDoc ''R'' ''open'') = Inr s'
         \<and> length (blocks s') = 4
         \<and> map hidden (blocks s') = [False, False, False, True])
   \<and> 2 \<in> descendants deepDoc ''R'' \<and> 2 \<notin> shut deepDoc ''R''
   \<and> 3 \<in> descendants deepDoc ''R'' \<and> 3 \<in> shut deepDoc ''R''"
proof -
  let ?s = "editorOf scenarioB ''R'' ''closed''"
  have b: "blocks ?s = scenarioB" by (simp add: editorOf_def)
  have h1: "ranked rankB (blocks ?s)" and h2: "distinct (rootIds (blocks ?s))"
    unfolding b by (rule scenarioB_wellformed)+
  have h3: "rankB ''R'' < 2" by (simp add: rankB_def)
  have l4: "length (blocks ?s) = 4" unfolding b by (simp add: scenarioB_def)
  have "\<exists>s'. hideAndShowBlocks 2 ''R'' (Some ''closed'') ?s = Inr s'
          \<and> length (blocks s') = length (blocks ?s)"
    using hideAndShowBlocks_propagates[OF h1 h2 h3, of "Some ''closed''"]
    by (elim exE conjE, intro exI conjI)
  then obtain s1 where
    r1: "hideAndShowBlocks 2 ''R'' (Some ''closed'') ?s = Inr s1" "length (blocks s1) = 4"
    unfolding l4 by (elim exE conjE)
  have "\<exists>s'. hideAndShowBlocks 2 ''R'' (Some ''open'') ?s = Inr s'
          \<and> length (blocks s') = length (blocks ?s)"
    using hideAndShowBlocks_propagates[OF h1 h2 h3, of "Some ''open''"]
    by (elim exE conjE, intro exI conjI)
  then obtain s2 where
    r2: "hideAndShowBlocks 2 ''R'' (Some ''open'') ?s = Inr s2" "length (blocks s2) = 4"
    unfolding l4 by (elim exE conjE)
  have e1: "map_sum id (\<lambda>s'. (map hidden (blocks s'), map status (blocks s')))
              (hideAndShowBlocks 2 ''R'' (Some ''closed'') ?s)
            = Inr ([False, True, True, True], [Some ''closed'', None, Some ''open'', None])"
    by (simp add: numeral_2_eq_2 editorOf_def scenarioB_def queryForeignKeyAt_def
          toggleRoot_def plainBlock_def setHidden_def)
  have e2: "map_sum id (\<lambda>s'. map hidden (blocks s'))
              (hideAndShowBlocks 2 ''R'' (Some ''open'') ?s)
            = Inr [False, False, False, False]"
    by (simp add: numeral_2_eq_2 editorOf_def scenarioB_def queryForeignKeyAt_def
          toggleRoot_def plainBlock_def setHidden_def)
  from e1 r1 have c1: "map hidden (blocks s1) = [False, True, True, True]"
    "map status (blocks s1) = [Some ''closed'', None, Some ''open'', None]" by simp_all
  from e2 r2 have c2: "map hidden (blocks s2) = [False, False, False, False]" by simp
  have A: "\<exists>s'. hideAndShowBlocks 2 ''R'' (Some ''closed'') ?s = Inr s'
         \<and> length (blocks s') = 4
         \<and> map hidden (blocks s') = [False, True, True, True]
         \<and> map status (blocks s') = [Some ''closed'', None, Some ''open'', None]"
    by (intro exI[of _ s1] conjI r1 c1)
  have B: "\<exists>s'. hideAndShowBlocks 2 ''R'' (Some ''open'') ?s = Inr s'
         \<and> length (blocks s') = 4
         \<and> map hidden (blocks s') = [False, False, False, False]"
    by (intro exI[of _ s2] conjI r2 c2)
  let ?d = "editorOf deepDoc ''R'' ''open''"
  have bd: "blocks ?d = deepDoc" by (simp add: editorOf_def)
  have g1: "ranked rankDeep (blocks ?d)"
    unfolding bd by (simp add: ranked_def deepDoc_def toggleRoot_def plainBlock_def rankDeep_def)
  have g2: "distinct (rootIds (blocks ?d))"
    unfolding bd by (simp add: rootIds_def deepDoc_def toggleRoot_def plainBlock_def)
  have g3: "rankDeep ''R'' < 3" by (simp add: rankDeep_def)
  have ld: "length deepDoc = 4" by (simp add: deepDoc_def)
  have nRT: "(''R'', ''T'') \<in> nested deepDoc" and nTU: "(''T'', ''U'') \<in> nested deepDoc"
    by (simp_all add: nested_def deepDoc_def toggleRoot_def plainBlock_def)
  have d2: "2 \<in> descendants deepDoc ''R''"
    unfolding descendants_def using r_into_rtrancl[OF nRT]
    by (simp add: deepDoc_def toggleRoot_def)
  from nRT nTU have "(''R'', ''U'') \<in> (nested deepDoc)\<^sup>*" by simp
  then have d3: "3 \<in> descendants deepDoc ''R''"
    unfolding descendants_def by (simp add: deepDoc_def plainBlock_def)
  have "\<exists>s'. hideAndShowBlocks 3 ''R'' (Some ''open'') ?d = Inr s'
          \<and> length (blocks s') = length (blocks ?d)
          \<and> (\<forall>i\<in>descendants (blocks ?d) ''R''.
                hidden (blocks s' ! i) = (Some ''open'' = Some ''closed'' \<or> i \<in> shut (blocks ?d) ''R''))"
    using hideAndShowBlocks_propagates[OF g1 g2 g3, of "Some ''open''"]
    by (elim exE conjE, intro exI conjI)
  then obtain s3 where
    r3: "hideAndShowBlocks 3 ''R'' (Some ''open'') ?d = Inr s3" "length (blocks s3) = 4"
    and a3: "\<forall>i\<in>descendants deepDoc ''R''.
                hidden (blocks s3 ! i) = (Some ''open'' = Some ''closed'' \<or> i \<in> shut deepDoc ''R'')"
    unfolding bd ld by (elim exE conjE)
  have e3: "map_sum id (\<lambda>s'. map hidden (blocks s'))
              (hideAndShowBlocks 3 ''R'' (Some ''open'') ?d)
            = Inr [False, False, False, True]"
    by (simp add: numeral_3_eq_3 editorOf_def deepDoc_def queryForeignKeyAt_def
          toggleRoot_def plainBlock_def setHidden_def Let_def)
  from e3 r3 have c3: "map hidden (blocks s3) = [False, False, False, True]" by simp
  have C: "\<exists>s'. hideAndShowBlocks 3 ''R'' (Some ''open'') ?d = Inr s'
         \<and> length (blocks s') = 4
         \<and> map hidden (blocks s') = [False, False, False, True]"
    by (intro exI[of _ s3] conjI r3 c3)
  from c3 r3(2) have "\<not> hidden (blocks s3 ! 2)" "hidden (blocks s3 ! 3)"
    by (simp_all add: list_eq_iff_nth_eq)
  with a3 d2 d3 have m: "2 \<notin> shut deepDoc ''R''" "3 \<in> shut deepDoc ''R''" by auto
  show ?thesis by (intro conjI h1 h2 h3 A B g1 g2 g3 C d2 d3 m)
qed



subsection \<open>Removing a whole toggle\<close>

lemma removeFullToggle_loop_effect:
  "nat (bound - i) = n \<Longrightarrow>
     calls (removeFullToggle_loop i bound t s) = calls s @ replicate n (Delete t)
     \<and> blocks (removeFullToggle_loop i bound t s) = (deleteBlocks t ^^ n) (blocks s)"
proof (induction n arbitrary: i s)
  case 0
  then have "\<not> i < bound" by simp
  then show ?case by (subst (1 2) removeFullToggle_loop.simps) simp
next
  case (Suc n)
  then have lt: "i < bound" and n: "nat (bound - (i + 1)) = n" by simp_all
  have unf: "removeFullToggle_loop i bound t s = removeFullToggle_loop (i + 1) bound t (delete t s)"
    using lt by (subst removeFullToggle_loop.simps) simp
  from Suc.IH[OF n, of "delete t s"] show ?case
    unfolding unf by (simp add: delete_def replicate_app_Cons_same funpow_swap1)
qed

text \<open>
  The delete button of the settings bar runs \<^verbatim>\<open>removeFullToggle\<close> when the editor has
  taken the root out. On Scenario D, where no member of \<open>R\<close> is a toggle, the two members
  follow the root: three deletions at position 0, and only the block after the toggle is
  left.
\<close>

lemma removeFullToggle_flat_as_called:
  "getDecendentsNumber 1 scenarioD ''R'' = Inr 2"
  "calls (removeFullToggle 0 (delete 0 (editorOf scenarioD ''R'' ''open'')))
     = [Delete 0, Delete 0, Delete 0]"
  "blocks (removeFullToggle 0 (delete 0 (editorOf scenarioD ''R'' ''open'')))
     = [plainBlock ''d3'' None]"
proof -
  let ?s = "delete 0 (editorOf scenarioD ''R'' ''open'')"
  show "getDecendentsNumber 1 scenarioD ''R'' = Inr 2"
    by (simp add: scenarioD_def queryForeignKey_def toggleRoot_def plainBlock_def)
  have bs: "blocks ?s = [plainBlock ''d1'' (Some ''R''), plainBlock ''d2'' (Some ''R''),
                         plainBlock ''d3'' None]"
    and cs: "calls ?s = [Delete 0]" and w: "wrapperId ?s = ''R''"
    by (simp_all add: delete_def deleteBlocks_def validIndex_def editorOf_def scenarioD_def)
  have q: "int (length (queryForeignKey (blocks ?s) (wrapperId ?s))) = 2"
    unfolding bs w by (simp add: queryForeignKey_def plainBlock_def)
  have n: "nat (0 + 2 - 0) = Suc (Suc 0)" by simp
  have r: "removeFullToggle 0 ?s = removeFullToggle_loop 0 (0 + 2) 0 ?s"
    unfolding removeFullToggle_def Let_def q ..
  from removeFullToggle_loop_effect[OF n, of 0 ?s]
  have c1: "calls (removeFullToggle 0 ?s) = [Delete 0, Delete 0, Delete 0]"
    and b1: "blocks (removeFullToggle 0 ?s) = (deleteBlocks 0 ^^ Suc (Suc 0)) (blocks ?s)"
    unfolding r cs by simp_all
  show "calls (removeFullToggle 0 ?s) = [Delete 0, Delete 0, Delete 0]" by (rule c1)
  show "blocks (removeFullToggle 0 ?s) = [plainBlock ''d3'' None]"
    unfolding b1 bs by (simp add: deleteBlocks_def validIndex_def)
qed

text \<open>
  C2. \<^verbatim>\<open>removeFullToggle\<close> does not remove a toggle with its \<open>N\<close> descendants when one of
  them is a toggle with members of its own. In Scenario B the toggle \<open>R\<close> at position 0 has
  \<open>N = 3\<close> descendants: the block \<open>b1\<close>, the nested toggle \<open>T\<close> in \<open>b2\<close>, and the member
  \<open>b3\<close> of \<open>T\<close>. The loop runs once for each block tagged \<open>R\<close>, which are two. Run as the
  delete button runs it, after the editor has taken the root out, it adds two deletions
  to the editor's one: three deletions at position 0, not \<open>N + 1 = 4\<close>, and \<open>b3\<close> stays in
  the document, tagged with a toggle that is gone. Run on the document with the root
  still there, it issues two deletions and leaves \<open>b2\<close> and \<open>b3\<close>.
\<close>

theorem removeFullToggle_leaves_nested_members:
  "getDecendentsNumber 2 scenarioB ''R'' = Inr 3
   \<and> calls (removeFullToggle 0 (delete 0 (editorOf scenarioB ''R'' ''closed'')))
       = [Delete 0, Delete 0, Delete 0]
   \<and> blocks (removeFullToggle 0 (delete 0 (editorOf scenarioB ''R'' ''closed'')))
       = [plainBlock ''b3'' (Some ''T'')]
   \<and> calls (removeFullToggle 0 (editorOf scenarioB ''R'' ''closed'')) = [Delete 0, Delete 0]
   \<and> blocks (removeFullToggle 0 (editorOf scenarioB ''R'' ''closed''))
       = [toggleRoot ''b2'' (Some ''R'') ''T'' ''open'', plainBlock ''b3'' (Some ''T'')]"
proof -
  let ?e = "editorOf scenarioB ''R'' ''closed''"
  let ?s = "delete 0 ?e"
  have c: "getDecendentsNumber 2 scenarioB ''R'' = Inr 3"
    by (simp add: numeral_2_eq_2 scenarioB_def queryForeignKey_def toggleRoot_def plainBlock_def)
  have n: "nat (0 + 2 - 0) = Suc (Suc 0)" by simp
  have bs: "blocks ?s = [plainBlock ''b1'' (Some ''R''), toggleRoot ''b2'' (Some ''R'') ''T'' ''open'',
                         plainBlock ''b3'' (Some ''T'')]"
    and cs: "calls ?s = [Delete 0]" and w: "wrapperId ?s = ''R''"
    by (simp_all add: delete_def deleteBlocks_def validIndex_def editorOf_def scenarioB_def)
  have q: "int (length (queryForeignKey (blocks ?s) (wrapperId ?s))) = 2"
    unfolding bs w by (simp add: queryForeignKey_def plainBlock_def toggleRoot_def)
  have r: "removeFullToggle 0 ?s = removeFullToggle_loop 0 (0 + 2) 0 ?s"
    unfolding removeFullToggle_def Let_def q ..
  from removeFullToggle_loop_effect[OF n, of 0 ?s]
  have c1: "calls (removeFullToggle 0 ?s) = [Delete 0, Delete 0, Delete 0]"
    and b1: "blocks (removeFullToggle 0 ?s) = (deleteBlocks 0 ^^ Suc (Suc 0)) (blocks ?s)"
    unfolding r cs by simp_all
  have c2: "blocks (removeFullToggle 0 ?s) = [plainBlock ''b3'' (Some ''T'')]"
    unfolding b1 bs by (simp add: deleteBlocks_def validIndex_def)
  have be: "blocks ?e = scenarioB" and ce: "calls ?e = []" and we: "wrapperId ?e = ''R''"
    by (simp_all add: editorOf_def)
  have qe: "int (length (queryForeignKey (blocks ?e) (wrapperId ?e))) = 2"
    unfolding be we by (simp add: scenarioB_def queryForeignKey_def plainBlock_def toggleRoot_def)
  have re: "removeFullToggle 0 ?e = removeFullToggle_loop 0 (0 + 2) 0 ?e"
    unfolding removeFullToggle_def Let_def qe ..
  from removeFullToggle_loop_effect[OF n, of 0 ?e]
  have c3: "calls (removeFullToggle 0 ?e) = [Delete 0, Delete 0]"
    and b3: "blocks (removeFullToggle 0 ?e) = (deleteBlocks 0 ^^ Suc (Suc 0)) scenarioB"
    unfolding re ce be by simp_all
  have c4: "blocks (removeFullToggle 0 ?e)
       = [toggleRoot ''b2'' (Some ''R'') ''T'' ''open'', plainBlock ''b3'' (Some ''T'')]"
    unfolding b3 by (simp add: scenarioB_def deleteBlocks_def validIndex_def)
  show ?thesis by (intro conjI c c1 c2 c3 c4)
qed

subsection \<open>Tagging and untagging\<close>

lemma setAttributesToNewBlock_itemsId_mem:
  "blockId (getBlockByIndex (blocks s) (case entryIndex of None \<Rightarrow> currentBlockIndex s | Some i \<Rightarrow> i))
     \<in> set (itemsId (setAttributesToNewBlock uuid entryIndex fk s))"
  by (simp add: setAttributesToNewBlock_def Let_def spliceInsert_def)

text \<open>
  C8. Tagging a position twice with the same parent link leaves the membership list and
  the tag of every block as tagging it once does (only the fresh holder id differs). But
  untagging is not a no-op on an untagged block: with the membership list \<open>[a]\<close> of the
  toggle \<open>R\<close>, \<^verbatim>\<open>removeAttributesFromNewBlock\<close> on the untagged block \<open>b\<close> at position 2
  leaves the blocks as they were and removes \<open>a\<close> from the list; applied to a list
  \<open>[a, c]\<close>, once gives \<open>[a]\<close> and twice gives the empty list.
\<close>

theorem removeAttributesFromNewBlock_untagged_drops_member:
  "itemsId (setAttributesToNewBlock u2 (Some i) (Some fk) (setAttributesToNewBlock u1 (Some i) (Some fk) s))
     = itemsId (setAttributesToNewBlock u1 (Some i) (Some fk) s)
   \<and> map (\<lambda>b. (foreignKey b, toggleItem b))
         (blocks (setAttributesToNewBlock u2 (Some i) (Some fk) (setAttributesToNewBlock u1 (Some i) (Some fk) s)))
     = map (\<lambda>b. (foreignKey b, toggleItem b)) (blocks (setAttributesToNewBlock u1 (Some i) (Some fk) s))
   \<and> foreignKey (blocks untaggedDrag ! 2) = None
   \<and> toggleItem (blocks untaggedDrag ! 2) = False
   \<and> itemsId untaggedDrag = [''a'']
   \<and> blocks (removeAttributesFromNewBlock 2 untaggedDrag) = blocks untaggedDrag
   \<and> itemsId (removeAttributesFromNewBlock 2 untaggedDrag) = []
   \<and> itemsId (removeAttributesFromNewBlock 2 (untaggedDrag\<lparr>itemsId := [''a'', ''c'']\<rparr>)) = [''a'']
   \<and> itemsId (removeAttributesFromNewBlock 2
         (removeAttributesFromNewBlock 2 (untaggedDrag\<lparr>itemsId := [''a'', ''c'']\<rparr>))) = []"
proof -
  let ?s1 = "setAttributesToNewBlock u1 (Some i) (Some fk) s"
  have len: "length (blocks ?s1) = length (blocks s)"
    by (simp add: setAttributesToNewBlock_def Let_def updateHolder_def)
  have v: "validIndex (blocks ?s1) i = validIndex (blocks s) i"
    by (simp add: validIndex_def len)
  have bid: "blockId (getBlockByIndex (blocks ?s1) i) = blockId (getBlockByIndex (blocks s) i)"
    by (simp add: setAttributesToNewBlock_def Let_def updateHolder_def getBlockByIndex_def
          validIndex_def nat_less_iff)
  have mem: "blockId (getBlockByIndex (blocks ?s1) i) \<in> set (itemsId ?s1)"
    unfolding bid using setAttributesToNewBlock_itemsId_mem[of s "Some i" u1 "Some fk"] by simp
  have A: "itemsId (setAttributesToNewBlock u2 (Some i) (Some fk) ?s1) = itemsId ?s1"
    using mem by (simp add: setAttributesToNewBlock_def[of u2] Let_def)
  have B: "map (\<lambda>b. (foreignKey b, toggleItem b))
         (blocks (setAttributesToNewBlock u2 (Some i) (Some fk) ?s1))
     = map (\<lambda>b. (foreignKey b, toggleItem b)) (blocks ?s1)"
  proof (cases "validIndex (blocks s) i")
    case True
    then have "nat i < length (blocks s)" by (simp add: validIndex_def nat_less_iff)
    with True show ?thesis
      by (simp add: setAttributesToNewBlock_def Let_def updateHolder_def validIndex_def
            map_update list_update_same_conv)
  next
    case False
    then show ?thesis
      by (simp add: setAttributesToNewBlock_def Let_def updateHolder_def)
  qed
  have C: "foreignKey (blocks untaggedDrag ! 2) = None" "toggleItem (blocks untaggedDrag ! 2) = False"
    "itemsId untaggedDrag = [''a'']"
    by (simp_all add: untaggedDrag_def editorOf_def plainBlock_def)
  have D: "blocks (removeAttributesFromNewBlock 2 untaggedDrag) = blocks untaggedDrag"
    by (simp add: removeAttributesFromNewBlock_def Let_def untaggedDrag_def editorOf_def
          plainBlock_def toggleRoot_def updateHolder_def validIndex_def)
  have E: "itemsId (removeAttributesFromNewBlock 2 untaggedDrag) = []"
    by (simp add: removeAttributesFromNewBlock_def Let_def untaggedDrag_def editorOf_def
          plainBlock_def toggleRoot_def getBlockByIndex_def validIndex_def spliceRemove1_def
          spliceStart_def)
  have F: "itemsId (removeAttributesFromNewBlock 2 (untaggedDrag\<lparr>itemsId := [''a'', ''c'']\<rparr>)) = [''a'']"
    by (simp add: removeAttributesFromNewBlock_def Let_def untaggedDrag_def editorOf_def
          plainBlock_def toggleRoot_def getBlockByIndex_def validIndex_def spliceRemove1_def
          spliceStart_def)
  have G: "itemsId (removeAttributesFromNewBlock 2
         (removeAttributesFromNewBlock 2 (untaggedDrag\<lparr>itemsId := [''a'', ''c'']\<rparr>))) = []"
    by (simp add: removeAttributesFromNewBlock_def Let_def untaggedDrag_def editorOf_def
          plainBlock_def toggleRoot_def getBlockByIndex_def validIndex_def spliceRemove1_def
          spliceStart_def updateHolder_def)
  show ?thesis by (intro conjI A B C D E F G)
qed


subsection \<open>Moves of the host\<close>

lemma validIndex_nat: "validIndex bs i \<Longrightarrow> nat i < length bs \<and> int (nat i) = i"
  by (simp add: validIndex_def nat_less_iff)

lemma length_moveBlocks: "length (moveBlocks t f bs) = length bs"
proof (cases "validIndex bs t \<and> validIndex bs f")
  case True
  then have "nat t < length bs" "nat f < length bs" by (simp_all add: validIndex_nat)
  with True show ?thesis by (simp add: moveBlocks_def Let_def) arith
next
  case False
  then show ?thesis by (auto simp: moveBlocks_def)
qed

lemma validIndex_moveBlocks: "validIndex (moveBlocks t f bs) i = validIndex bs i"
  by (simp add: validIndex_def length_moveBlocks)

lemma remove_insert_nat:
  assumes "a < length bs"
  shows "take a (take a bs @ drop (Suc a) bs) @ bs ! a # drop a (take a bs @ drop (Suc a) bs) = bs"
proof -
  have A: "take a (take a bs @ drop (Suc a) bs) = take a bs" using assms by simp
  have B: "drop a (take a bs @ drop (Suc a) bs) = drop (Suc a) bs" using assms by simp
  show ?thesis unfolding A B by (rule id_take_nth_drop[OF assms, symmetric])
qed

lemma insert_remove_nat:
  assumes "b \<le> length ys"
  shows "take b (take b ys @ x # drop b ys) @ drop (Suc b) (take b ys @ x # drop b ys) = ys"
    and "(take b ys @ x # drop b ys) ! b = x"
proof -
  have l: "length (take b ys) = b" using assms by simp
  have "take b (take b ys @ x # drop b ys) = take b ys" using l by simp
  moreover have "drop (Suc b) (take b ys @ x # drop b ys) = drop b ys" using l by simp
  ultimately show "take b (take b ys @ x # drop b ys) @ drop (Suc b) (take b ys @ x # drop b ys) = ys"
    by simp
  show "(take b ys @ x # drop b ys) ! b = x" using l by (simp add: nth_append)
qed

lemma moveBlocks_nat:
  assumes "a < length bs" "b < length bs"
  shows "moveBlocks (int b) (int a) bs
       = take b (take a bs @ drop (Suc a) bs) @ bs ! a # drop b (take a bs @ drop (Suc a) bs)"
  using assms by (simp add: moveBlocks_def validIndex_def Let_def)

lemma moveBlocks_inverse_nat:
  assumes "a < length bs" "b < length bs"
  shows "moveBlocks (int a) (int b) (moveBlocks (int b) (int a) bs) = bs"
proof -
  let ?R = "take a bs @ drop (Suc a) bs"
  let ?L = "take b ?R @ bs ! a # drop b ?R"
  have lR: "length ?R = length bs - 1" using assms by simp
  then have bR: "b \<le> length ?R" using assms by simp
  have L: "moveBlocks (int b) (int a) bs = ?L" by (rule moveBlocks_nat[OF assms])
  have lL: "length ?L = length bs" using length_moveBlocks[of "int b" "int a" bs] L by simp
  have "moveBlocks (int a) (int b) ?L
        = take a (take b ?L @ drop (Suc b) ?L) @ ?L ! b # drop a (take b ?L @ drop (Suc b) ?L)"
    by (rule moveBlocks_nat) (simp_all only: lL assms)
  also have "take b ?L @ drop (Suc b) ?L = ?R" by (rule insert_remove_nat(1)[OF bR])
  also have "?L ! b = bs ! a" by (rule insert_remove_nat(2)[OF bR])
  also have "take a ?R @ bs ! a # drop a ?R = bs" by (rule remove_insert_nat[OF assms(1)])
  finally show ?thesis unfolding L .
qed

lemma moveBlocks_inverse:
  assumes "validIndex bs a" "validIndex bs b"
  shows "moveBlocks a b (moveBlocks b a bs) = bs"
  using moveBlocks_inverse_nat[of "nat a" bs "nat b"] validIndex_nat[OF assms(1)] validIndex_nat[OF assms(2)]
  by simp

lemma moveBlocks_adjacent_nat:
  assumes "Suc a < length bs"
  shows "moveBlocks (int (Suc a)) (int a) bs = moveBlocks (int a) (int (Suc a)) bs"
proof -
  have a: "a < length bs" using assms by simp
  have la: "length (take a bs) = a" using a by simp
  have lsa: "length (take (Suc a) bs) = Suc a" using assms by simp
  have e1: "moveBlocks (int (Suc a)) (int a) bs
     = take a bs @ bs ! Suc a # bs ! a # drop (Suc (Suc a)) bs"
  proof -
    have d: "drop (Suc a) bs = bs ! Suc a # drop (Suc (Suc a)) bs"
      using assms by (simp add: Cons_nth_drop_Suc)
    have "take (Suc a) (take a bs @ drop (Suc a) bs) = take a bs @ [bs ! Suc a]"
      using la d by simp
    moreover have "drop (Suc a) (take a bs @ drop (Suc a) bs) = drop (Suc (Suc a)) bs"
      using la d by simp
    ultimately show ?thesis unfolding moveBlocks_nat[OF a assms] by simp
  qed
  have e2: "moveBlocks (int a) (int (Suc a)) bs
     = take a bs @ bs ! Suc a # bs ! a # drop (Suc (Suc a)) bs"
  proof -
    have t: "take (Suc a) bs = take a bs @ [bs ! a]" using a by (simp add: take_Suc_conv_app_nth)
    have "take a (take (Suc a) bs @ drop (Suc (Suc a)) bs) = take a bs"
      unfolding t using la by simp
    moreover have "drop a (take (Suc a) bs @ drop (Suc (Suc a)) bs) = bs ! a # drop (Suc (Suc a)) bs"
      unfolding t using la by simp
    ultimately show ?thesis unfolding moveBlocks_nat[OF assms a] by simp
  qed
  show ?thesis unfolding e1 e2 ..
qed

lemma moveBlocks_nth_to:
  assumes "validIndex bs t" "validIndex bs f"
  shows "moveBlocks t f bs ! nat t = bs ! nat f"
proof -
  from validIndex_nat[OF assms(1)] validIndex_nat[OF assms(2)]
  have t: "nat t < length bs" and f: "nat f < length bs" by simp_all
  let ?R = "take (nat f) bs @ drop (Suc (nat f)) bs"
  have "length ?R = length bs - 1" using f by simp
  then have "nat t \<le> length ?R" using t by simp
  from insert_remove_nat(2)[OF this, of "bs ! nat f"] assms show ?thesis
    by (simp add: moveBlocks_def Let_def)
qed

lemma moveBlocks_nth_before:
  assumes "a < b" "b < length bs"
  shows "moveBlocks (int b) (int a) bs ! (b - 1) = bs ! b"
proof -
  have a: "a < length bs" using assms by simp
  let ?R = "take a bs @ drop (Suc a) bs"
  have lR: "length ?R = length bs - 1" using a by simp
  have l: "length (take b ?R) = b" using lR assms by simp
  have "moveBlocks (int b) (int a) bs ! (b - 1) = (take b ?R @ bs ! a # drop b ?R) ! (b - 1)"
    unfolding moveBlocks_nat[OF a assms(2)] ..
  also have "\<dots> = take b ?R ! (b - 1)" using l assms(1) by (simp add: nth_append)
  also have "\<dots> = ?R ! (b - 1)" using assms(1) by (intro nth_take) simp
  also have "\<dots> = drop (Suc a) bs ! (b - 1 - a)" using assms a by (simp add: nth_append)
  also have "\<dots> = bs ! b" using assms by simp
  finally show ?thesis .
qed


subsection \<open>Moving a toggle at the ends of the document\<close>

lemma blocks_move: "blocks (move t f s) = moveBlocks t f (blocks s)"
  by (simp add: move_def)


subsection \<open>A drop inside the own subtree\<close>

lemma isChild_no_target: "isChild depth bs p None \<noteq> Inr True"
  by (cases depth) (simp_all split: option.splits)

lemma itemsId_move: "itemsId (move t f s) = itemsId s"
  by (simp add: move_def)

text \<open>
  A drop on a target below the root. The dragged holder is the root of this toggle and
  came from position \<open>start\<close>; the drop has put it at the position \<open>t0\<close> of a target
  below it, so that the target now stands at \<open>t0 - 1\<close>. When \<^verbatim>\<open>isChild\<close> finds the target's
  parent link inside the toggle's own subtree, the listener moves the root back and does
  nothing else: the block sequence with all its tags is exactly the one before the drop,
  \<^verbatim>\<open>moveChildren\<close> is not called, and the membership list is unchanged.
\<close>

lemma onDrop_inside_own_subtree_below:
  assumes "\<not> readOnly s" and "nameDragged s = ''toggle''"
    and "validIndex bs0 start" and "validIndex bs0 t0" and "start < t0"
    and "startBlock s = start"
    and "blocks s = moveBlocks t0 start bs0"
    and "wrapperId s \<in> set (selectors (bs0 ! nat start))"
    and "isChild depth (blocks s) (Some (wrapperId s)) (foreignKey (bs0 ! nat t0)) = Inr True"
  shows "\<exists>s'. onDrop moveChildren depth uuid (t0 - 1) t0 s = Inr s'
      \<and> blocks s' = bs0 \<and> itemsId s' = itemsId s"
proof -
  from validIndex_nat[OF assms(3)] validIndex_nat[OF assms(4)]
  have ns: "nat start < length bs0" "int (nat start) = start"
    and nt: "nat t0 < length bs0" "int (nat t0) = t0" by simp_all
  have s0: "0 \<le> start" using assms(3) by (simp add: validIndex_def)
  have lt: "nat start < nat t0" using assms(5) s0 by simp
  have vT: "validIndex (blocks s) (t0 - 1)"
    unfolding assms(7) validIndex_moveBlocks using assms(4,5) s0 by (simp add: validIndex_def)
  have vD: "validIndex (blocks s) t0"
    unfolding assms(7) validIndex_moveBlocks by (rule assms(4))
  have tgt: "getBlockByIndex (blocks s) (t0 - 1) = bs0 ! nat t0"
  proof -
    have "moveBlocks (int (nat t0)) (int (nat start)) bs0 ! (nat t0 - 1) = bs0 ! nat t0"
      by (rule moveBlocks_nth_before[OF lt nt(1)])
    then have "moveBlocks t0 start bs0 ! (nat t0 - 1) = bs0 ! nat t0"
      unfolding ns(2) nt(2) .
    moreover have "nat (t0 - 1) = nat t0 - 1" by simp
    ultimately show ?thesis using vT by (simp add: getBlockByIndex_def assms(7))
  qed
  have drg: "getBlockByIndex (blocks s) t0 = bs0 ! nat start"
    using vD moveBlocks_nth_to[OF assms(4) assms(3)] by (simp add: getBlockByIndex_def assms(7))
  obtain fk where fk: "foreignKey (bs0 ! nat t0) = Some fk"
    using assms(9) isChild_no_target[of depth "blocks s" "Some (wrapperId s)"]
    by (cases "foreignKey (bs0 ! nat t0)") auto
  define endBlock where "endBlock = (if start < t0 - 1 then t0 - 1 + 1 else t0 - 1)"
  define toIndex where "toIndex = (if start = endBlock then start + 1 else start)"
  have run: "onDrop moveChildren depth uuid (t0 - 1) t0 s = Inr (move toIndex endBlock s)"
    using assms(1,2,6,8,9) vT fk
    by (simp add: onDrop_def Let_def tgt drg endBlock_def toIndex_def)
  have restored: "moveBlocks toIndex endBlock (moveBlocks t0 start bs0) = bs0"
  proof (cases "start < t0 - 1")
    case True
    then have "endBlock = t0" "toIndex = start" by (simp_all add: endBlock_def toIndex_def)
    then show ?thesis using moveBlocks_inverse[OF assms(3) assms(4)] by simp
  next
    case False
    with assms(5) have e: "t0 = start + 1" by simp
    then have et: "endBlock = start" "toIndex = start + 1" by (simp_all add: endBlock_def toIndex_def)
    have "Suc (nat start) < length bs0" using nt(1) e s0 by (simp add: nat_add_distrib)
    from moveBlocks_adjacent_nat[OF this] ns(2) s0
    have adj: "moveBlocks (start + 1) start bs0 = moveBlocks start (start + 1) bs0"
      by (simp add: nat_add_distrib add.commute)
    have v1: "validIndex bs0 (start + 1)" using assms(4) e by simp
    show ?thesis unfolding et e adj by (rule moveBlocks_inverse[OF v1 assms(3)])
  qed
  have "blocks (move toIndex endBlock s) = bs0"
    unfolding blocks_move assms(7) by (rule restored)
  with run itemsId_move[of toIndex endBlock s] show ?thesis by simp
qed


lemma onDrop_inside_own_subtree_below_example:
  "\<not> readOnly droppedOnMember \<and> nameDragged droppedOnMember = ''toggle''
   \<and> validIndex dropDoc 0 \<and> validIndex dropDoc 2 \<and> (0::int) < 2
   \<and> startBlock droppedOnMember = 0
   \<and> blocks droppedOnMember = moveBlocks 2 0 dropDoc
   \<and> wrapperId droppedOnMember \<in> set (selectors (dropDoc ! nat 0))
   \<and> isChild 1 (blocks droppedOnMember) (Some (wrapperId droppedOnMember))
         (foreignKey (dropDoc ! nat 2)) = Inr True
   \<and> (\<exists>s'. onDrop (\<lambda>e d s. Inr (s, d)) 1 ''u'' (2 - 1) 2 droppedOnMember = Inr s'
          \<and> blocks s' = dropDoc \<and> itemsId s' = [])"
proof -
  have h1: "\<not> readOnly droppedOnMember" and h2: "nameDragged droppedOnMember = ''toggle''"
    and h6: "startBlock droppedOnMember = 0"
    and h7: "blocks droppedOnMember = moveBlocks 2 0 dropDoc"
    and it: "itemsId droppedOnMember = []"
    and w: "wrapperId droppedOnMember = ''R''"
    by (simp_all add: droppedOnMember_def editorOf_def)
  have h3: "validIndex dropDoc 0" and h4: "validIndex dropDoc 2"
    by (simp_all add: validIndex_def dropDoc_def)
  have h5: "(0::int) < 2" by simp
  have h8: "wrapperId droppedOnMember \<in> set (selectors (dropDoc ! nat 0))"
    unfolding w by (simp add: dropDoc_def toggleRoot_def)
  have fk: "foreignKey (dropDoc ! nat 2) = Some ''R''"
    by (simp add: dropDoc_def plainBlock_def)
  have h9: "isChild 1 (blocks droppedOnMember) (Some (wrapperId droppedOnMember))
         (foreignKey (dropDoc ! nat 2)) = Inr True"
    unfolding w fk by simp
  from onDrop_inside_own_subtree_below[OF h1 h2 h3 h4 h5 h6 h7 h8 h9,
      of "\<lambda>e d s. Inr (s, d)" "''u''"]
  have "\<exists>s'. onDrop (\<lambda>e d s. Inr (s, d)) 1 ''u'' (2 - 1) 2 droppedOnMember = Inr s'
          \<and> blocks s' = dropDoc \<and> itemsId s' = []"
    unfolding it .
  with h1 h2 h3 h4 h5 h6 h7 h8 h9 show ?thesis by (intro conjI)
qed


text \<open>
  C5. The listener does not put the root back when the target of the drop stands above
  it. In the document \<open>[g0, g1, g2]\<close> the block \<open>g0\<close> is tagged with \<open>R\<close> and stands above
  the root \<open>g1\<close> of \<open>R\<close>. The root is dragged from position 1 and dropped on \<open>g0\<close>: the
  listener finds \<open>[g1, g0, g2]\<close>, the target at position 1 and the root at position 0.
  \<^verbatim>\<open>isChild\<close> answers true, so the drop is rejected; \<^verbatim>\<open>endBlock\<close> is the position of the
  target and equals \<^verbatim>\<open>startBlock\<close>, and the listener calls \<^verbatim>\<open>move(2, 1)\<close>, which moves the
  target, not the root. Whatever \<^verbatim>\<open>moveChildren\<close> is, the sequence ends as \<open>[g1, g2, g0]\<close>:
  the root is at position 0, not back at position 1, and the sequence before the drop is
  not restored.
\<close>

theorem onDrop_target_above_root_not_restored:
  "blocks droppedOnMemberAbove
     = [toggleRoot ''g1'' None ''R'' ''open'', plainBlock ''g0'' (Some ''R''), plainBlock ''g2'' None]
   \<and> startBlock droppedOnMemberAbove = 1
   \<and> isChild 1 (blocks droppedOnMemberAbove) (Some (wrapperId droppedOnMemberAbove))
         (foreignKey (getBlockByIndex (blocks droppedOnMemberAbove) 1)) = Inr True
   \<and> map_sum id (\<lambda>s'. (calls s', blocks s'))
         (onDrop moveChildren 1 uuid 1 0 droppedOnMemberAbove)
       = Inr ([Move 2 1],
              [toggleRoot ''g1'' None ''R'' ''open'', plainBlock ''g2'' None,
               plainBlock ''g0'' (Some ''R'')])
   \<and> [toggleRoot ''g1'' None ''R'' ''open'', plainBlock ''g2'' None, plainBlock ''g0'' (Some ''R'')]
       \<noteq> dropAboveDoc"
proof -
  have b: "blocks droppedOnMemberAbove
     = [toggleRoot ''g1'' None ''R'' ''open'', plainBlock ''g0'' (Some ''R''), plainBlock ''g2'' None]"
    by (simp add: droppedOnMemberAbove_def editorOf_def dropAboveDoc_def moveBlocks_def
          validIndex_def Let_def)
  have f: "startBlock droppedOnMemberAbove = 1" "wrapperId droppedOnMemberAbove = ''R''"
    "\<not> readOnly droppedOnMemberAbove" "nameDragged droppedOnMemberAbove = ''toggle''"
    "calls droppedOnMemberAbove = []"
    by (simp_all add: droppedOnMemberAbove_def editorOf_def)
  have t: "getBlockByIndex (blocks droppedOnMemberAbove) 1 = plainBlock ''g0'' (Some ''R'')"
    and d: "getBlockByIndex (blocks droppedOnMemberAbove) 0 = toggleRoot ''g1'' None ''R'' ''open''"
    and v: "validIndex (blocks droppedOnMemberAbove) 1"
    unfolding b by (simp_all add: getBlockByIndex_def validIndex_def)
  have fk: "foreignKey (plainBlock ''g0'' (Some ''R'')) = Some ''R''"
    "selectors (plainBlock ''g0'' (Some ''R'')) = []"
    "selectors (toggleRoot ''g1'' None ''R'' ''open'') = [''R'']"
    by (simp_all add: plainBlock_def toggleRoot_def)
  have ic: "isChild 1 (blocks droppedOnMemberAbove) (Some (wrapperId droppedOnMemberAbove))
         (foreignKey (getBlockByIndex (blocks droppedOnMemberAbove) 1)) = Inr True"
    unfolding t fk f by simp
  have run: "onDrop moveChildren 1 uuid 1 0 droppedOnMemberAbove
             = Inr (move 2 1 droppedOnMemberAbove)"
    using ic v f by (simp add: onDrop_def Let_def t d fk)
  have res: "calls (move 2 1 droppedOnMemberAbove) = [Move 2 1]"
    "blocks (move 2 1 droppedOnMemberAbove)
       = [toggleRoot ''g1'' None ''R'' ''open'', plainBlock ''g2'' None, plainBlock ''g0'' (Some ''R'')]"
    unfolding calls_move blocks_move b f
    by (simp_all add: moveBlocks_def validIndex_def Let_def)
  have ne: "[toggleRoot ''g1'' None ''R'' ''open'', plainBlock ''g2'' None, plainBlock ''g0'' (Some ''R'')]
       \<noteq> dropAboveDoc"
    by (simp add: dropAboveDoc_def toggleRoot_def plainBlock_def)
  have out: "map_sum id (\<lambda>s'. (calls s', blocks s'))
         (onDrop moveChildren 1 uuid 1 0 droppedOnMemberAbove)
       = Inr ([Move 2 1],
              [toggleRoot ''g1'' None ''R'' ''open'', plainBlock ''g2'' None,
               plainBlock ''g0'' (Some ''R'')])"
    unfolding run by (simp add: res)
  show ?thesis by (intro conjI b f(1) ic out ne)
qed


subsection \<open>The count when a member loses its tag\<close>







subsection \<open>Extracting a member\<close>










end
